theory Spec2Isabelle
  imports Main "HOL-Library.Word" "HOL-Library.Finite_Map" "HOL-Library.Sublist"
begin

section \<open>Strings and time\<close>

text \<open>
  A JavaScript string is a sequence of UTF-16 code units and \<open>length\<close> counts code units,
  so the text handed to \<open>truncateMessage\<close> is a list of 16-bit words.  Keys, URLs and
  error messages are only compared and concatenated; they are plain \<open>string\<close>s.
  \<open>Date.now()\<close> is an integer number of milliseconds, passed to every operation that
  reads the clock.
\<close>

type_synonym jsstring = "16 word list"

type_synonym millis = int

definition ascii :: "string \<Rightarrow> jsstring" where
  "ascii s = map (\<lambda>c. of_nat (of_char c)) s"

definition ellipsis :: "16 word" where
  "ellipsis = 0x2026"

section \<open>utils/truncate: truncateMessage\<close>

text \<open>
  \<open>text.substring(0, n)\<close> clamps \<open>n\<close> to \<open>0 .. text.length\<close>, which is \<open>take (nat n)\<close>.
  The bound is an integer (\<open>maxMessage: int\<close>).
\<close>

definition substring0 :: "jsstring \<Rightarrow> int \<Rightarrow> jsstring" where
  "substring0 s n = take (nat n) s"

definition truncateMessage :: "jsstring \<Rightarrow> int \<Rightarrow> jsstring" where
  "truncateMessage txt maxLength =
     (if int (length txt) \<le> maxLength then txt
      else if maxLength \<le> 1 then [ellipsis]
      else substring0 txt (maxLength - 1) @ [ellipsis])"

definition long_message :: jsstring where
  "long_message = ascii ''This is a very long message that needs to be truncated''"

section \<open>idempotency-cache: IdempotencyCache\<close>

record CacheEntry =
  expiresAt :: millis

record IdempotencyCache =
  cache_map :: "(string, CacheEntry) fmap"
  ttlMs :: millis
  cleanupTimer :: bool

text \<open>
  The map is the field \<open>cache\<close> of the class; it is called \<open>cache_map\<close> here because
  the notifier has a field \<open>cache\<close> as well.  The constructor: an empty map,
  \<open>options.ttlMs ?? 24 * 60 * 60 * 1000\<close>, the sweep started.
\<close>

definition IdempotencyCache_new :: "millis option \<Rightarrow> IdempotencyCache" where
  "IdempotencyCache_new ttl =
     \<lparr>cache_map = fmempty,
      ttlMs = (case ttl of Some t \<Rightarrow> t | None \<Rightarrow> 24 * 60 * 60 * 1000),
      cleanupTimer = True\<rparr>"

text \<open>
  \<open>has\<close> reads the clock and may delete the entry it looked up, so it returns the
  answer together with the cache it leaves behind.
\<close>

definition has :: "millis \<Rightarrow> string \<Rightarrow> IdempotencyCache \<Rightarrow> bool \<times> IdempotencyCache" where
  "has now key c =
     (case fmlookup (cache_map c) key of
        None \<Rightarrow> (False, c)
      | Some entry \<Rightarrow>
          if now > expiresAt entry then (False, c\<lparr>cache_map := fmdrop key (cache_map c)\<rparr>)
          else (True, c))"

definition set_key :: "millis \<Rightarrow> string \<Rightarrow> IdempotencyCache \<Rightarrow> IdempotencyCache" where
  "set_key now key c = c\<lparr>cache_map := fmupd key \<lparr>expiresAt = now + ttlMs c\<rparr> (cache_map c)\<rparr>"

definition cleanup :: "millis \<Rightarrow> IdempotencyCache \<Rightarrow> IdempotencyCache" where
  "cleanup now c =
     c\<lparr>cache_map := fmfilter (\<lambda>k. case fmlookup (cache_map c) k of
                                  Some entry \<Rightarrow> \<not> now > expiresAt entry
                                | None \<Rightarrow> False) (cache_map c)\<rparr>"

definition cache_destroy :: "IdempotencyCache \<Rightarrow> IdempotencyCache" where
  "cache_destroy c = c\<lparr>cleanupTimer := False, cache_map := fmempty\<rparr>"

definition cache_size :: "IdempotencyCache \<Rightarrow> nat" where
  "cache_size c = fcard (fmdom (cache_map c))"

section \<open>http-client: HttpClient\<close>

record HttpClient =
  maxRetries :: int
  initialDelayMs :: millis

record HttpResponse =
  ok :: bool
  status :: nat
  statusText :: string
  body :: string

definition HttpClient_new :: "int option \<Rightarrow> millis option \<Rightarrow> HttpClient" where
  "HttpClient_new retries delay =
     \<lparr>maxRetries = (case retries of Some r \<Rightarrow> r | None \<Rightarrow> 3),
      initialDelayMs = (case delay of Some d \<Rightarrow> d | None \<Rightarrow> 300)\<rparr>"

text \<open>
  What one \<open>fetch\<close> followed by \<open>response.text()\<close> does is the network's choice: it
  throws (message of the error), or answers with a status, a status text and a body.
  \<open>response.ok\<close> is node-fetch's getter, true for a status from 200 to 299.
\<close>

datatype fetch_outcome = Threw string | Responded nat string string

definition response_ok :: "nat \<Rightarrow> bool" where
  "response_ok st = (200 \<le> st \<and> st < 300)"

text \<open>Decimal digits of a number, as a template literal prints them.\<close>

definition digit_char :: "nat \<Rightarrow> char" where
  "digit_char d = char_of (48 + d)"

function show_nat :: "nat \<Rightarrow> string" where
  "show_nat n = (if n < 10 then [digit_char n] else show_nat (n div 10) @ [digit_char (n mod 10)])"
  by pat_completeness auto
termination
  by (relation "measure id") auto

text \<open>
  The body of the \<open>try\<close> block for one attempt: the response, or the error that the
  \<open>catch\<close> clause receives.
\<close>

definition attempt_once :: "fetch_outcome \<Rightarrow> string + HttpResponse" where
  "attempt_once out =
     (case out of
        Threw msg \<Rightarrow> Inl msg
      | Responded st stText bd \<Rightarrow>
          if \<not> response_ok st then Inl (''HTTP '' @ show_nat st @ '': '' @ stText)
          else Inr \<lparr>ok = response_ok st, status = st, statusText = stText, body = bd\<rparr>)"

text \<open>What the client does to the outside world, in order.\<close>

datatype io_event = Fetch int | Sleep millis

definition backoff :: "HttpClient \<Rightarrow> int \<Rightarrow> io_event list" where
  "backoff c attempt =
     (if attempt < maxRetries c then [Sleep (initialDelayMs c * 2 ^ nat (attempt - 1))] else [])"

text \<open>
  The \<open>for\<close> loop of \<open>post\<close>, from a given attempt number on, with the last error
  caught and the events so far.  \<open>net attempt\<close> is what the network does at that attempt.
\<close>

function post_loop ::
  "HttpClient \<Rightarrow> (int \<Rightarrow> fetch_outcome) \<Rightarrow> int \<Rightarrow> string option \<Rightarrow> io_event list
     \<Rightarrow> (string + HttpResponse) \<times> io_event list" where
  "post_loop c net attempt lastError evs =
     (if attempt \<le> maxRetries c then
        (case attempt_once (net attempt) of
           Inr response \<Rightarrow> (Inr response, evs @ [Fetch attempt])
         | Inl err \<Rightarrow>
             post_loop c net (attempt + 1) (Some err) (evs @ Fetch attempt # backoff c attempt))
      else
        (Inl (case lastError of Some e \<Rightarrow> e | None \<Rightarrow> ''Max retries reached''), evs))"
  by pat_completeness auto
termination
  by (relation "measure (\<lambda>(c, net, attempt, lastError, evs). nat (maxRetries c + 1 - attempt))") auto

definition post :: "HttpClient \<Rightarrow> (int \<Rightarrow> fetch_outcome) \<Rightarrow> (string + HttpResponse) \<times> io_event list" where
  "post c net = post_loop c net 1 None []"

text \<open>
  Two networks used as examples: one that answers 503 twice and then 200, and one that
  refuses the connection twice and then answers 500.
\<close>

definition flaky :: "int \<Rightarrow> fetch_outcome" where
  "flaky j = (if j = 3 then Responded 200 ''OK'' ''{}'' else Responded 503 ''Service Unavailable'' [])"

definition refusing :: "int \<Rightarrow> fetch_outcome" where
  "refusing j = (if j = 3 then Responded 500 ''Internal Server Error'' [] else Threw ''ECONNREFUSED'')"

section \<open>batch-manager: BatchManager\<close>

record 'p BatchItem =
  payload :: 'p
  webhookName :: "string option"

record BatchManagerOptions =
  size_opt :: int
  intervalMs :: millis
  flushOnDestroy :: bool

text \<open>
  The option \<open>size\<close> is called \<open>size_opt\<close>.
  The four fields of the class (\<open>timer\<close> says whether the interval handle is set),
  and what the event loop and the \<open>onFlush\<close> callback see of it: every invocation of
  \<open>options.onFlush\<close> with its batch, the number of invocations whose promise has not
  settled yet, and the number of callbacks handed to \<open>setImmediate\<close> that have not run.
\<close>

record 'p BatchManager =
  queue :: "'p BatchItem list"
  timer :: bool
  options :: BatchManagerOptions
  flushing :: bool
  onFlush_calls :: "'p BatchItem list list"
  running :: nat
  immediates :: nat

text \<open>The constructor: \<open>flushOnDestroy: options.flushOnDestroy ?? true\<close>, timer started.\<close>

definition BatchManager_new :: "int \<Rightarrow> millis \<Rightarrow> bool option \<Rightarrow> 'p BatchManager" where
  "BatchManager_new sz interval fod =
     \<lparr>queue = [], timer = True,
      options = \<lparr>size_opt = sz, intervalMs = interval,
                 flushOnDestroy = (case fod of Some b \<Rightarrow> b | None \<Rightarrow> True)\<rparr>,
      flushing = False, onFlush_calls = [], running = 0, immediates = 0\<rparr>"

text \<open>
  JavaScript runs one callback at a time; an \<open>async\<close> method runs until its first
  \<open>await\<close> and the rest runs later, when the awaited promise has settled.  Each
  definition below is one such uninterrupted piece.
\<close>

datatype promise = Fulfilled | Failed string | Pending

datatype onFlush_behaviour = ThrowsSync string | ReturnsPromise

datatype settled = Resolved | RejectedWith string

definition add :: "'p \<Rightarrow> string option \<Rightarrow> 'p BatchManager \<Rightarrow> 'p BatchManager" where
  "add p w m =
     (let m1 = m\<lparr>queue := queue m @ [\<lparr>payload = p, webhookName = w\<rparr>]\<rparr>
      in if int (length (queue m1)) \<ge> size_opt (options m1)
         then m1\<lparr>immediates := immediates m1 + 1\<rparr>
         else m1)"

text \<open>
  \<open>flush\<close> up to the \<open>await\<close>: the guard, the flag, the splice and the call of
  \<open>onFlush\<close>.  When the callback throws at once the \<open>finally\<close> clause runs in the same
  piece; otherwise the method is suspended and its promise is pending.
\<close>

definition flush_enter :: "onFlush_behaviour \<Rightarrow> 'p BatchManager \<Rightarrow> promise \<times> 'p BatchManager" where
  "flush_enter cb m =
     (if flushing m \<or> length (queue m) = 0 then (Fulfilled, m)
      else
        (let m1 = m\<lparr>flushing := True\<rparr>;
             batch = queue m1;
             m2 = m1\<lparr>queue := [], onFlush_calls := onFlush_calls m1 @ [batch]\<rparr>
         in case cb of
              ThrowsSync e \<Rightarrow> (Failed e, m2\<lparr>flushing := False\<rparr>)
            | ReturnsPromise \<Rightarrow> (Pending, m2\<lparr>running := running m2 + 1\<rparr>)))"

text \<open>The rest of \<open>flush\<close>, once the promise of \<open>onFlush\<close> has settled: the \<open>finally\<close> clause.\<close>

definition flush_resume :: "settled \<Rightarrow> 'p BatchManager \<Rightarrow> promise \<times> 'p BatchManager" where
  "flush_resume out m =
     ((case out of Resolved \<Rightarrow> Fulfilled | RejectedWith e \<Rightarrow> Failed e),
      m\<lparr>flushing := False, running := running m - 1\<rparr>)"

text \<open>The interval callback and the \<open>setImmediate\<close> callback.\<close>

definition timer_tick :: "onFlush_behaviour \<Rightarrow> 'p BatchManager \<Rightarrow> 'p BatchManager" where
  "timer_tick cb m = (if length (queue m) > 0 then snd (flush_enter cb m) else m)"

definition run_immediate :: "onFlush_behaviour \<Rightarrow> 'p BatchManager \<Rightarrow> 'p BatchManager" where
  "run_immediate cb m = snd (flush_enter cb (m\<lparr>immediates := immediates m - 1\<rparr>))"

text \<open>
  \<open>destroy\<close> up to its \<open>await\<close>.  It awaits the promise of \<open>flush\<close> and does nothing
  after it, so its own promise is the one \<open>flush\<close> returned.
\<close>

definition destroy_enter :: "onFlush_behaviour \<Rightarrow> 'p BatchManager \<Rightarrow> promise \<times> 'p BatchManager" where
  "destroy_enter cb m =
     (let m1 = m\<lparr>timer := False\<rparr>
      in if flushOnDestroy (options m1) \<and> length (queue m1) > 0 then flush_enter cb m1
         else (Fulfilled, m1\<lparr>queue := []\<rparr>))"

text \<open>
  Everything that can happen to a manager, one piece at a time.  A promise can only
  settle when an \<open>onFlush\<close> is running, the interval callback only runs while the
  timer is set, and a \<open>setImmediate\<close> callback only when one is waiting.
\<close>

datatype 'p event =
    Add 'p "string option"
  | Flush onFlush_behaviour
  | Settle settled
  | Tick onFlush_behaviour
  | Immediate onFlush_behaviour
  | Destroy onFlush_behaviour

fun step :: "'p BatchManager \<Rightarrow> 'p event \<Rightarrow> 'p BatchManager" where
  "step m (Add p w) = add p w m"
| "step m (Flush cb) = snd (flush_enter cb m)"
| "step m (Settle out) = (if running m > 0 then snd (flush_resume out m) else m)"
| "step m (Tick cb) = (if timer m then timer_tick cb m else m)"
| "step m (Immediate cb) = (if immediates m > 0 then run_immediate cb m else m)"
| "step m (Destroy cb) = snd (destroy_enter cb m)"

definition run :: "'p BatchManager \<Rightarrow> 'p event list \<Rightarrow> 'p BatchManager" where
  "run m es = foldl step m es"

text \<open>The items a list of events submits, in order.\<close>

fun added :: "'p event list \<Rightarrow> 'p BatchItem list" where
  "added [] = []"
| "added (Add p w # es) = \<lparr>payload = p, webhookName = w\<rparr> # added es"
| "added (e # es) = added es"

text \<open>
  Two readings of a manager that the invariants are stated with: the counter of running
  callbacks agrees with the flag, and the items handed to \<open>onFlush\<close> so far followed
  by the items still queued.
\<close>

definition balanced :: "'p BatchManager \<Rightarrow> bool" where
  "balanced m = (running m = (if flushing m then 1 else 0))"

definition claimed :: "'p BatchManager \<Rightarrow> 'p BatchItem list" where
  "claimed m = concat (onFlush_calls m) @ queue m"

text \<open>Submissions as pairs of payload and webhook name.\<close>

definition as_item :: "'p \<times> string option \<Rightarrow> 'p BatchItem" where
  "as_item pw = \<lparr>payload = fst pw, webhookName = snd pw\<rparr>"

definition adds :: "('p \<times> string option) list \<Rightarrow> 'p event list" where
  "adds ps = map (\<lambda>pw. Add (fst pw) (snd pw)) ps"

text \<open>
  Managers used as examples, with natural numbers as payloads: two items queued (with
  and without \<open>flushOnDestroy\<close>), one item queued while an earlier flush is still
  running, and a manager of batch size 1 that has been destroyed.
\<close>

definition two_queued :: "nat BatchManager" where
  "two_queued = run (BatchManager_new 10 5000 None) [Add 1 None, Add 2 None]"

definition two_queued_discard :: "nat BatchManager" where
  "two_queued_discard = run (BatchManager_new 10 5000 (Some False)) [Add 1 None, Add 2 None]"

definition busy :: "nat BatchManager" where
  "busy = run (BatchManager_new 10 5000 None) [Add 1 None, Flush ReturnsPromise, Add 2 None]"

definition destroyed :: "nat BatchManager" where
  "destroyed = snd (destroy_enter ReturnsPromise (BatchManager_new 1 5000 None))"

section \<open>config: ConfigManager.getWebhook\<close>

record ConfigManager =
  webhooks :: "(string, string) fmap"
  defaultWebhook :: "string option"

text \<open>
  \<open>name.toLowerCase()\<close> is JavaScript's own method, not code of the repository: the
  function \<open>lower\<close> it computes is a parameter of \<open>getWebhook\<close>, and everything proved
  below holds for whatever function it is.
\<close>

text \<open>The default webhook or, when it is unset (or the empty string), the given error.\<close>

definition default_or :: "ConfigManager \<Rightarrow> string \<Rightarrow> string + string" where
  "default_or cfg msg =
     (case defaultWebhook cfg of
        Some d \<Rightarrow> if d \<noteq> [] then Inr d else Inl msg
      | None \<Rightarrow> Inl msg)"

definition getWebhook ::
  "(string \<Rightarrow> string) \<Rightarrow> ConfigManager \<Rightarrow> string option \<Rightarrow> string + string" where
  "getWebhook lower cfg nm =
     (case nm of
        None \<Rightarrow> default_or cfg ''No default webhook configured''
      | Some n \<Rightarrow>
          if n = [] then default_or cfg ''No default webhook configured''
          else
            (let missing = ''Webhook '' @ [CHR 0x27] @ n @ [CHR 0x27]
                             @ '' not found and no default webhook configured''
             in case fmlookup (webhooks cfg) (lower n) of
                  Some url \<Rightarrow> if url \<noteq> [] then Inr url else default_or cfg missing
                | None \<Rightarrow> default_or cfg missing))"

section \<open>notifier: NotifierImpl\<close>

text \<open>
  A payload is a bag of named fields.  The schema's methods other than \<open>buildCard\<close> are
  optional; \<open>getIdempotencyKey\<close> and \<open>getWebhookName\<close> may return \<open>undefined\<close>.
\<close>

type_synonym payload = "(string \<times> string) list"

datatype level = LevelAll | LevelImportant

record 'c EventSchema =
  buildCard :: "payload \<Rightarrow> int \<Rightarrow> 'c"
  isImportantEvent :: "(string \<Rightarrow> bool) option"
  getIdempotencyKey :: "(payload \<Rightarrow> string option) option"
  getWebhookName :: "(payload \<Rightarrow> string option) option"

text \<open>
  The fields of the class (\<open>maxMessage\<close> is the card builder's option), and what the
  outside sees of it: the calls of \<open>httpClient.post\<close> with URL and card, the lines
  written with \<open>console.error\<close>, and the calls of the \<open>onError\<close> and \<open>onSuccess\<close>
  callbacks of the options.
\<close>

record 'c NotifierImpl =
  config :: ConfigManager
  maxMessage :: int
  cache :: "IdempotencyCache option"
  httpClient :: HttpClient
  batchManager :: "payload BatchManager option"
  schema :: "'c EventSchema"
  level :: level
  posted :: "(string \<times> 'c) list"
  console_errors :: "string list"
  onError_calls :: "(payload \<times> string) list"
  onSuccess_calls :: "payload list"

text \<open>
  The world a notifier runs in: what the network does at each attempt of the \<open>k\<close>-th call
  of \<open>httpClient.post\<close>, the clock when that call has returned, and the runtime's
  \<open>String.prototype.toLowerCase\<close>.
\<close>

record world =
  network :: "nat \<Rightarrow> int \<Rightarrow> fetch_outcome"
  settled_at :: "nat \<Rightarrow> millis"
  toLowerCase :: "string \<Rightarrow> string"

definition extractEvent :: "payload \<Rightarrow> string option" where
  "extractEvent p =
     (case map_of p ''event'' of
        Some e \<Rightarrow> Some e
      | None \<Rightarrow> (case map_of p ''type'' of Some e \<Rightarrow> Some e | None \<Rightarrow> map_of p ''status''))"

text \<open>The importance filter of \<open>notify\<close>: true when the call returns at once.\<close>

definition not_important :: "'c NotifierImpl \<Rightarrow> payload \<Rightarrow> bool" where
  "not_important s p =
     (level s = LevelImportant \<and>
      (case isImportantEvent (schema s) of
         None \<Rightarrow> False
       | Some important \<Rightarrow>
           (case extractEvent p of
              None \<Rightarrow> False
            | Some ev \<Rightarrow> ev \<noteq> [] \<and> \<not> important ev)))"

text \<open>
  The idempotency check of \<open>notify\<close>: whether the call returns as "already sent", and the
  notifier with the cache as \<open>has\<close> left it.
\<close>

definition already_sent :: "millis \<Rightarrow> payload \<Rightarrow> 'c NotifierImpl \<Rightarrow> bool \<times> 'c NotifierImpl" where
  "already_sent now p s =
     (case cache s of
        None \<Rightarrow> (False, s)
      | Some c \<Rightarrow>
          (case getIdempotencyKey (schema s) of
             None \<Rightarrow> (False, s)
           | Some keyOf \<Rightarrow>
               (case keyOf p of
                  None \<Rightarrow> (False, s)
                | Some k \<Rightarrow>
                    if k = [] then (False, s)
                    else (case has now k c of (hit, c1) \<Rightarrow> (hit, s\<lparr>cache := Some c1\<rparr>)))))"

text \<open>The block that marks the key of a payload, as \<open>notify\<close> and \<open>sendSingle\<close> both have it.\<close>

definition mark_key :: "millis \<Rightarrow> payload \<Rightarrow> 'c NotifierImpl \<Rightarrow> 'c NotifierImpl" where
  "mark_key now p s =
     (case cache s of
        None \<Rightarrow> s
      | Some c \<Rightarrow>
          (case getIdempotencyKey (schema s) of
             None \<Rightarrow> s
           | Some keyOf \<Rightarrow>
               (case keyOf p of
                  None \<Rightarrow> s
                | Some k \<Rightarrow> if k = [] then s else s\<lparr>cache := Some (set_key now k c)\<rparr>)))"

text \<open>\<open>webhookName ?? this.schema.getWebhookName?.(payload)\<close>\<close>

definition resolve_name :: "'c EventSchema \<Rightarrow> payload \<Rightarrow> string option \<Rightarrow> string option" where
  "resolve_name sch p w =
     (case w of
        Some n \<Rightarrow> Some n
      | None \<Rightarrow> (case getWebhookName sch of None \<Rightarrow> None | Some nameOf \<Rightarrow> nameOf p))"

text \<open>
  \<open>sendSingle\<close> is suspended once, at \<open>await this.httpClient.post(...)\<close>, and other
  callbacks run in between.  Up to the \<open>await\<close> it builds the card, resolves the URL
  and starts the post, which is the \<open>k\<close>-th call of \<open>post\<close> when \<open>k\<close> calls were made
  before.  The rest runs when the post has returned, with its outcome and the clock of
  that moment.
\<close>

definition sendSingle_begin ::
  "world \<Rightarrow> payload \<Rightarrow> string option \<Rightarrow> 'c NotifierImpl \<Rightarrow> (string + nat) \<times> 'c NotifierImpl" where
  "sendSingle_begin env p w s =
     (let card = buildCard (schema s) p (maxMessage s)
      in case getWebhook (toLowerCase env) (config s) (resolve_name (schema s) p w) of
           Inl e \<Rightarrow> (Inl e, s)
         | Inr url \<Rightarrow> (Inr (length (posted s)), s\<lparr>posted := posted s @ [(url, card)]\<rparr>))"

definition sendSingle_finish ::
  "string + HttpResponse \<Rightarrow> millis \<Rightarrow> payload \<Rightarrow> 'c NotifierImpl
     \<Rightarrow> (string + unit) \<times> 'c NotifierImpl" where
  "sendSingle_finish outcome t p s =
     (case outcome of
        Inl e \<Rightarrow> (Inl e, s)
      | Inr response \<Rightarrow> (Inr (), mark_key t p s))"

text \<open>\<open>sendSingle\<close> when nothing else runs while it waits for the post.\<close>

definition sendSingle ::
  "world \<Rightarrow> payload \<Rightarrow> string option \<Rightarrow> 'c NotifierImpl \<Rightarrow> (string + unit) \<times> 'c NotifierImpl" where
  "sendSingle env p w s =
     (case sendSingle_begin env p w s of
        (Inl e, s1) \<Rightarrow> (Inl e, s1)
      | (Inr k, s1) \<Rightarrow>
          sendSingle_finish (fst (post (httpClient s1) (network env k))) (settled_at env k) p s1)"

text \<open>
  \<open>notify\<close> up to its only \<open>await\<close>, the one of \<open>sendSingle\<close>: either the call has
  returned (filtered out, already sent, enqueued, or no URL), or it is waiting for the
  \<open>k\<close>-th post.  What remains then is the rest of \<open>sendSingle\<close>.
\<close>

datatype started = Returned "string + unit" | Awaiting nat

definition notify_begin ::
  "world \<Rightarrow> millis \<Rightarrow> payload \<Rightarrow> string option \<Rightarrow> 'c NotifierImpl
     \<Rightarrow> started \<times> 'c NotifierImpl" where
  "notify_begin env now p w s =
     (if not_important s p then (Returned (Inr ()), s)
      else
        (case already_sent now p s of
           (True, s1) \<Rightarrow> (Returned (Inr ()), s1)
         | (False, s1) \<Rightarrow>
             (case batchManager s1 of
                Some m \<Rightarrow>
                  (Returned (Inr ()), mark_key now p (s1\<lparr>batchManager := Some (add p w m)\<rparr>))
              | None \<Rightarrow>
                  (case sendSingle_begin env p w s1 of
                     (Inl e, s2) \<Rightarrow> (Returned (Inl e), s2)
                   | (Inr k, s2) \<Rightarrow> (Awaiting k, s2)))))"

text \<open>\<open>notify\<close> when nothing else runs while it waits for the post.\<close>

definition notify ::
  "world \<Rightarrow> millis \<Rightarrow> payload \<Rightarrow> string option \<Rightarrow> 'c NotifierImpl
     \<Rightarrow> (string + unit) \<times> 'c NotifierImpl" where
  "notify env now p w s =
     (case notify_begin env now p w s of
        (Returned r, s1) \<Rightarrow> (r, s1)
      | (Awaiting k, s1) \<Rightarrow>
          sendSingle_finish (fst (post (httpClient s1) (network env k))) (settled_at env k) p s1)"

text \<open>
  One element of \<open>batch.map(async (item) => ...)\<close>: the \<open>try\<close> around \<open>sendSingle\<close> and
  the \<open>catch\<close> that logs.  \<open>sendBatch\<close> awaits all of them and fails when one of them
  does.  The items are taken in queue order; posts that are in flight together would
  only interleave the entries of the logs.
\<close>

definition send_item ::
  "world \<Rightarrow> payload BatchItem \<Rightarrow> 'c NotifierImpl \<Rightarrow> (string + unit) \<times> 'c NotifierImpl" where
  "send_item env item s =
     (case sendSingle env (payload item) (webhookName item) s of
        (Inl e, s1) \<Rightarrow> (Inr (), s1\<lparr>console_errors := console_errors s1 @ [e]\<rparr>)
      | (Inr u, s1) \<Rightarrow> (Inr (), s1))"

fun sendBatch ::
  "world \<Rightarrow> payload BatchItem list \<Rightarrow> 'c NotifierImpl \<Rightarrow> (string + unit) \<times> 'c NotifierImpl" where
  "sendBatch env [] s = (Inr (), s)"
| "sendBatch env (item # batch) s =
     (case send_item env item s of
        (r, s1) \<Rightarrow>
          (case sendBatch env batch s1 of
             (rs, s2) \<Rightarrow> ((case r of Inl e \<Rightarrow> Inl e | Inr u \<Rightarrow> rs), s2)))"

text \<open>
  The \<open>onFlush\<close> the constructor hands to the batch manager is \<open>sendBatch\<close>.  Given what
  \<open>flush\<close> or \<open>destroy\<close> of the manager did up to its \<open>await\<close>, run that callback on
  the batch it was called with and then the rest of \<open>flush\<close>.
\<close>

definition await_onFlush ::
  "world \<Rightarrow> promise \<times> payload BatchManager \<Rightarrow> 'c NotifierImpl
     \<Rightarrow> (string + unit) \<times> 'c NotifierImpl" where
  "await_onFlush env pm s =
     (case pm of
        (Fulfilled, m1) \<Rightarrow> (Inr (), s\<lparr>batchManager := Some m1\<rparr>)
      | (Failed e, m1) \<Rightarrow> (Inl e, s\<lparr>batchManager := Some m1\<rparr>)
      | (Pending, m1) \<Rightarrow>
          (case sendBatch env (last (onFlush_calls m1)) (s\<lparr>batchManager := Some m1\<rparr>) of
             (r, s1) \<Rightarrow>
               (case flush_resume (case r of Inl e \<Rightarrow> RejectedWith e | Inr u \<Rightarrow> Resolved) m1 of
                  (pr, m2) \<Rightarrow>
                    ((case pr of Failed e \<Rightarrow> Inl e | other \<Rightarrow> Inr ()),
                     s1\<lparr>batchManager := Some m2\<rparr>))))"

definition notifier_flush :: "world \<Rightarrow> 'c NotifierImpl \<Rightarrow> (string + unit) \<times> 'c NotifierImpl" where
  "notifier_flush env s =
     (case batchManager s of
        Some m \<Rightarrow> await_onFlush env (flush_enter ReturnsPromise m) s
      | None \<Rightarrow> (Inr (), s))"

definition notifier_destroy :: "world \<Rightarrow> 'c NotifierImpl \<Rightarrow> (string + unit) \<times> 'c NotifierImpl" where
  "notifier_destroy env s =
     (case (case batchManager s of
              Some m \<Rightarrow> await_onFlush env (destroy_enter ReturnsPromise m) s
            | None \<Rightarrow> (Inr (), s)) of
        (Inl e, s1) \<Rightarrow> (Inl e, s1)
      | (Inr u, s1) \<Rightarrow>
          (Inr (), (case cache s1 of Some c \<Rightarrow> s1\<lparr>cache := Some (cache_destroy c)\<rparr> | None \<Rightarrow> s1)))"

text \<open>
  Three readings of a notifier: the key the schema gives a payload, if the cache is
  used for it (a key that is \<open>undefined\<close> or the empty string is not); whether the cache
  holds a key with an expiry of at least \<open>t\<close>; and the TTL of the cache.  \<open>enqueued\<close> is
  the length of the batch queue.
\<close>

definition key_of :: "'c NotifierImpl \<Rightarrow> payload \<Rightarrow> string option" where
  "key_of s p =
     (case getIdempotencyKey (schema s) of
        None \<Rightarrow> None
      | Some keyOf \<Rightarrow> (case keyOf p of None \<Rightarrow> None | Some k \<Rightarrow> if k = [] then None else Some k))"

definition seen_until :: "'c NotifierImpl \<Rightarrow> string \<Rightarrow> millis \<Rightarrow> bool" where
  "seen_until s k t =
     (case cache s of
        None \<Rightarrow> False
      | Some c \<Rightarrow> (case fmlookup (cache_map c) k of None \<Rightarrow> False | Some entry \<Rightarrow> t \<le> expiresAt entry))"

definition ttl_of :: "'c NotifierImpl \<Rightarrow> millis" where
  "ttl_of s = (case cache s of None \<Rightarrow> 0 | Some c \<Rightarrow> ttlMs c)"

definition enqueued :: "'c NotifierImpl \<Rightarrow> nat" where
  "enqueued s = (case batchManager s of None \<Rightarrow> 0 | Some m \<Rightarrow> length (queue m))"

text \<open>
  A notifier used as an example: all events pass, the key is the payload's \<open>id\<close>
  field, the card is the payload itself, one default webhook, TTL 1000 ms and two
  attempts per delivery; with or without a batch manager.  Three worlds: the webhook
  unreachable, reachable, and unreachable for the first delivery only.
\<close>

definition demo_schema :: "payload EventSchema" where
  "demo_schema =
     \<lparr>buildCard = (\<lambda>p n. p), isImportantEvent = None,
      getIdempotencyKey = Some (\<lambda>p. map_of p ''id''), getWebhookName = None\<rparr>"

definition demo :: "payload BatchManager option \<Rightarrow> payload NotifierImpl" where
  "demo bm =
     \<lparr>config = \<lparr>webhooks = fmempty, defaultWebhook = Some ''https://chat.googleapis.com/a''\<rparr>,
      maxMessage = 4000,
      cache = Some (IdempotencyCache_new (Some 1000)),
      httpClient = HttpClient_new (Some 2) None,
      batchManager = bm,
      schema = demo_schema, level = LevelAll,
      posted = [], console_errors = [], onError_calls = [], onSuccess_calls = []\<rparr>"

definition batching :: "payload NotifierImpl" where
  "batching = demo (Some (BatchManager_new 10 5000 None))"

text \<open>
  In the example worlds \<open>toLowerCase\<close> is \<open>ascii_lower\<close>, which folds the letters A to Z
  as JavaScript does; the examples use ASCII names only.
\<close>

definition ascii_lower :: "string \<Rightarrow> string" where
  "ascii_lower nm =
     map (\<lambda>ch. let n = (of_char ch :: nat) in if 65 \<le> n \<and> n \<le> 90 then char_of (n + 32) else ch) nm"

definition unreachable :: world where
  "unreachable =
     \<lparr>network = (\<lambda>i a. Threw ''ECONNREFUSED''), settled_at = (\<lambda>i. 5),
      toLowerCase = ascii_lower\<rparr>"

definition reachable :: world where
  "reachable =
     \<lparr>network = (\<lambda>i a. Responded 200 ''OK'' ''{}''), settled_at = (\<lambda>i. 5),
      toLowerCase = ascii_lower\<rparr>"

definition first_post_fails :: world where
  "first_post_fails =
     \<lparr>network = (\<lambda>i a. if i = 0 then Threw ''ECONNREFUSED'' else Responded 200 ''OK'' ''{}''),
      settled_at = (\<lambda>i. 5), toLowerCase = ascii_lower\<rparr>"

definition event_a :: payload where
  "event_a = [(''id'', ''a'')]"

definition event_b :: payload where
  "event_b = [(''id'', ''b'')]"

text \<open>
  Further examples: a world in which every post is accepted and has returned at a given
  time; a payload whose key is the empty string; the example notifier after one
  delivered event; the example notifier while the post of a first \<open>notify\<close> is awaited,
  and after a second \<open>notify\<close> of the same event has started in the meantime; and a
  notifier configured with one named webhook and no default webhook.
\<close>

definition reachable_at :: "millis \<Rightarrow> world" where
  "reachable_at t =
     \<lparr>network = (\<lambda>i a. Responded 200 ''OK'' ''{}''), settled_at = (\<lambda>i. t),
      toLowerCase = ascii_lower\<rparr>"

definition event_blank :: payload where
  "event_blank = [(''id'', [])]"

definition delivered_once :: "payload NotifierImpl" where
  "delivered_once = snd (notify reachable 0 event_a None (demo None))"

definition in_flight :: "payload NotifierImpl" where
  "in_flight = snd (notify_begin reachable 0 event_a None (demo None))"

definition in_flight_twice :: "payload NotifierImpl" where
  "in_flight_twice = snd (notify_begin reachable 3 event_a None in_flight)"


section \<open>Code that runs between two calls\<close>

text \<open>
  \<open>notify\<close> is asynchronous: while one call awaits its post, other code runs on the same
  notifier.  An action is one uninterrupted piece of such code: a call of \<open>notify\<close> up to
  its first wait; the rest of a \<open>sendSingle\<close> whose post has settled, with the outcome of
  the post and the clock reading; a flush of the batch manager; and the sweep that the
  cache runs from its timer.  \<open>timed_within lo hi\<close> says that every clock reading of an
  action lies between \<open>lo\<close> and \<open>hi\<close>.
\<close>

datatype action =
    Begins world payload "string option" millis
  | Settles "string + HttpResponse" millis payload
  | Flushes world
  | Sweeps millis

fun act :: "'c NotifierImpl \<Rightarrow> action \<Rightarrow> 'c NotifierImpl" where
  "act s (Begins env p w t) = snd (notify_begin env t p w s)"
| "act s (Settles outcome t p) = snd (sendSingle_finish outcome t p s)"
| "act s (Flushes env) = snd (notifier_flush env s)"
| "act s (Sweeps t) = (case cache s of None \<Rightarrow> s | Some c \<Rightarrow> s\<lparr>cache := Some (cleanup t c)\<rparr>)"

definition acts :: "'c NotifierImpl \<Rightarrow> action list \<Rightarrow> 'c NotifierImpl" where
  "acts s evs = foldl act s evs"

fun timed_within :: "millis \<Rightarrow> millis \<Rightarrow> action \<Rightarrow> bool" where
  "timed_within lo hi (Begins env p w t) = (lo \<le> t \<and> t \<le> hi)"
| "timed_within lo hi (Settles outcome t p) = (lo \<le> t \<and> t \<le> hi)"
| "timed_within lo hi (Flushes env) = (\<forall>i. lo \<le> settled_at env i \<and> settled_at env i \<le> hi)"
| "timed_within lo hi (Sweeps t) = (lo \<le> t \<and> t \<le> hi)"

section \<open>Truncation\<close>

text \<open>
  Claim C9, as the code has it.  A text no longer than the bound is returned unchanged.
  A longer text becomes its first \<open>maxLength - 1\<close> code units followed by one ellipsis,
  so for a bound of at least 1 the result has exactly \<open>maxLength\<close> code units; the
  54-unit test message cut at 20 is "This is a very long" plus the ellipsis.  With
  bound 1 the result is the ellipsis alone for every text of more than one code unit
  (a text of length 0 or 1 falls under the first rule and comes back unchanged).
\<close>

theorem truncateMessage_cases:
  "(int (length txt) \<le> n \<longrightarrow> truncateMessage txt n = txt) \<and>
   (n < int (length txt) \<longrightarrow>
      truncateMessage txt n = take (nat (n - 1)) txt @ [ellipsis]) \<and>
   (n < int (length txt) \<and> 1 \<le> n \<longrightarrow> int (length (truncateMessage txt n)) = n) \<and>
   (length long_message = 54 \<and>
    truncateMessage long_message 20 = ascii ''This is a very long'' @ [ellipsis] \<and>
    length (truncateMessage long_message 20) = 20) \<and>
   (1 < length txt \<longrightarrow> truncateMessage txt 1 = [ellipsis])"
  by (simp add: truncateMessage_def substring0_def long_message_def ascii_def)

theorem truncateMessage_cases_witness:
  "truncateMessage (ascii ''Exact'') 5 = ascii ''Exact'' \<and>
   truncateMessage (ascii ''test'') 1 = [ellipsis] \<and>
   truncateMessage (ascii ''test'') 3 = ascii ''te'' @ [ellipsis] \<and>
   int (length (truncateMessage (ascii ''test'') 3)) = 3"
  using truncateMessage_cases [of "ascii ''Exact''" 5]
    truncateMessage_cases [of "ascii ''test''" 1]
    truncateMessage_cases [of "ascii ''test''" 3]
  by (simp add: ascii_def)

text \<open>
  C9 as worded ("for every text, truncate(text, 1) returns just the ellipsis") fails on a
  one-letter text: it is not longer than the bound and is returned as it is.
\<close>

theorem truncateMessage_short_text_counterexample:
  "truncateMessage (ascii ''a'') 1 = ascii ''a'' \<and> truncateMessage (ascii ''a'') 1 \<noteq> [ellipsis]"
  by (simp add: truncateMessage_def ascii_def ellipsis_def)

section \<open>The expiring key cache\<close>

lemma has_hit:
  "fst (has now key c) =
     (\<exists>entry. fmlookup (cache_map c) key = Some entry \<and> now \<le> expiresAt entry)"
  by (auto simp: has_def split: option.splits)

lemma size_drop:
  "fmlookup m key = Some entry \<Longrightarrow> fcard (fmdom (fmdrop key m)) < fcard (fmdom m)"
proof -
  assume "fmlookup m key = Some entry"
  then have "key |\<in>| fmdom m" by (rule fmdomI)
  then have "fcard (fmdom m |-| {|key|}) < fcard (fmdom m)" by (rule fcard_fminus1_less)
  then show ?thesis by (simp only: fmdom_drop)
qed

text \<open>
  Claim C5, as the code has it.  \<open>has\<close> answers true exactly when the key has an entry
  and the clock is not past its expiry, \<open>now \<le> expiresAt\<close> (the entry is still live at
  the instant of expiry itself).  \<open>set\<close> stores \<open>now + ttlMs\<close> whatever was stored
  before, so the last write wins, and a key set at \<open>t1\<close> is reported at \<open>now\<close> exactly
  when \<open>now \<le> t1 + ttlMs\<close>.  When \<open>has\<close> finds an entry whose expiry has passed it
  answers false and leaves the cache without that entry, one entry smaller.
\<close>

theorem has_live_entry:
  "fst (has now key c) =
     (\<exists>entry. fmlookup (cache_map c) key = Some entry \<and> now \<le> expiresAt entry) \<and>
   fmlookup (cache_map (set_key now key c)) key = Some \<lparr>expiresAt = now + ttlMs c\<rparr> \<and>
   fmlookup (cache_map (set_key t2 key (set_key t1 key c))) key
     = Some \<lparr>expiresAt = t2 + ttlMs c\<rparr> \<and>
   fst (has now key (set_key t1 key c)) = (now \<le> t1 + ttlMs c) \<and>
   (\<forall>entry. fmlookup (cache_map c) key = Some entry \<and> expiresAt entry < now \<longrightarrow>
      has now key c = (False, c\<lparr>cache_map := fmdrop key (cache_map c)\<rparr>) \<and>
      fmlookup (cache_map (snd (has now key c))) key = None \<and>
      cache_size (snd (has now key c)) < cache_size c)"
proof (intro conjI allI impI)
  show "fst (has now key c) =
     (\<exists>entry. fmlookup (cache_map c) key = Some entry \<and> now \<le> expiresAt entry)"
    by (rule has_hit)
  show "fmlookup (cache_map (set_key now key c)) key = Some \<lparr>expiresAt = now + ttlMs c\<rparr>"
    by (simp add: set_key_def)
  show "fmlookup (cache_map (set_key t2 key (set_key t1 key c))) key
      = Some \<lparr>expiresAt = t2 + ttlMs c\<rparr>"
    by (simp add: set_key_def)
  show "fst (has now key (set_key t1 key c)) = (now \<le> t1 + ttlMs c)"
    by (simp add: has_hit) (simp add: set_key_def)
next
  fix entry
  assume expired: "fmlookup (cache_map c) key = Some entry \<and> expiresAt entry < now"
  then show evict: "has now key c = (False, c\<lparr>cache_map := fmdrop key (cache_map c)\<rparr>)"
    by (simp add: has_def)
  show "fmlookup (cache_map (snd (has now key c))) key = None"
    by (simp add: evict)
  show "cache_size (snd (has now key c)) < cache_size c"
    using expired size_drop [of "cache_map c" key entry]
    by (simp add: evict cache_size_def del: fmdom_drop)
qed

text \<open>The test's scenario: TTL 50, set at 0; live at 50, gone and evicted at 100.\<close>

theorem has_live_entry_witness:
  "fst (has 50 ''key1'' (set_key 0 ''key1'' (IdempotencyCache_new (Some 50)))) \<and>
   \<not> fst (has 100 ''key1'' (set_key 0 ''key1'' (IdempotencyCache_new (Some 50)))) \<and>
   fmlookup (cache_map (snd (has 100 ''key1'' (set_key 0 ''key1'' (IdempotencyCache_new (Some 50))))))
     ''key1'' = None \<and>
   cache_size (snd (has 100 ''key1'' (set_key 0 ''key1'' (IdempotencyCache_new (Some 50)))))
     < cache_size (set_key 0 ''key1'' (IdempotencyCache_new (Some 50)))"
proof -
  let ?empty = "IdempotencyCache_new (Some 50)"
  let ?held = "set_key 0 ''key1'' ?empty"
  have stored: "fmlookup (cache_map ?held) ''key1'' = Some \<lparr>expiresAt = 50\<rparr> \<and>
      expiresAt \<lparr>expiresAt = 50\<rparr> < 100"
    by (simp add: set_key_def IdempotencyCache_new_def)
  note at50 = has_live_entry [of 50 "''key1''" ?empty 0 0]
  note at100 = has_live_entry [of 100 "''key1''" ?held 0 0]
  have live: "fst (has 50 ''key1'' ?held) = (50 \<le> 0 + ttlMs ?empty)"
    by (rule at50 [THEN conjunct2, THEN conjunct2, THEN conjunct2, THEN conjunct1])
  have evicted: "has 100 ''key1'' ?held
        = (False, ?held\<lparr>cache_map := fmdrop ''key1'' (cache_map ?held)\<rparr>) \<and>
      fmlookup (cache_map (snd (has 100 ''key1'' ?held))) ''key1'' = None \<and>
      cache_size (snd (has 100 ''key1'' ?held)) < cache_size ?held"
    by (rule at100 [THEN conjunct2, THEN conjunct2, THEN conjunct2, THEN conjunct2,
          rule_format, OF stored])
  have ttl: "ttlMs ?empty = 50"
    by (simp add: IdempotencyCache_new_def)
  have "fst (has 50 ''key1'' ?held)"
    by (simp add: live ttl)
  moreover have "\<not> fst (has 100 ''key1'' ?held)"
    using evicted by simp
  ultimately show ?thesis
    using evicted by blast
qed

text \<open>
  C5 as worded ("true if and only if ... now < expiry") fails at the instant of expiry:
  the entry set at 0 with TTL 50 expires at 50, 50 is not below 50, and \<open>has\<close> at 50
  still answers true.
\<close>

theorem has_at_expiry_counterexample:
  "fmlookup (cache_map (set_key 0 ''key1'' (IdempotencyCache_new (Some 50)))) ''key1''
     = Some \<lparr>expiresAt = 50\<rparr> \<and>
   \<not> (50 < expiresAt \<lparr>expiresAt = 50\<rparr>) \<and>
   fst (has 50 ''key1'' (set_key 0 ''key1'' (IdempotencyCache_new (Some 50))))"
  by (simp add: has_def set_key_def IdempotencyCache_new_def)


section \<open>The retrying delivery client\<close>

declare post_loop.simps [simp del]

declare show_nat.simps [simp del]

lemma post_loop_exhausted:
  "maxRetries c < a \<Longrightarrow>
   post_loop c net a lastError evs
     = (Inl (case lastError of Some e \<Rightarrow> e | None \<Rightarrow> ''Max retries reached''), evs)"
  by (subst post_loop.simps) simp

lemma post_loop_success:
  "a \<le> maxRetries c \<Longrightarrow> attempt_once (net a) = Inr response \<Longrightarrow>
   post_loop c net a lastError evs = (Inr response, evs @ [Fetch a])"
  by (subst post_loop.simps) simp

lemma post_loop_retry:
  "a \<le> maxRetries c \<Longrightarrow> attempt_once (net a) = Inl err \<Longrightarrow>
   post_loop c net a lastError evs
     = post_loop c net (a + 1) (Some err) (evs @ Fetch a # backoff c a)"
  by (subst post_loop.simps) simp

lemma post_loop_all_fail:
  "a \<le> maxRetries c \<Longrightarrow>
   (\<forall>j. a \<le> j \<and> j \<le> maxRetries c \<longrightarrow> isl (attempt_once (net j))) \<Longrightarrow>
   attempt_once (net (maxRetries c)) = Inl e \<Longrightarrow>
   post_loop c net a lastError evs
     = (Inl e, evs @ concat (map (\<lambda>j. Fetch j # backoff c j) [a..maxRetries c]))"
proof (induction "nat (maxRetries c - a)" arbitrary: a lastError evs)
  case 0
  then have last: "a = maxRetries c" by simp
  have "post_loop c net a lastError evs
      = post_loop c net (a + 1) (Some e) (evs @ Fetch a # backoff c a)"
    using 0 last by (simp add: post_loop_retry)
  also have "\<dots> = (Inl e, evs @ Fetch a # backoff c a)"
    using last by (simp add: post_loop_exhausted)
  finally show ?case using last by simp
next
  case (Suc d)
  then have below: "a < maxRetries c" by simp
  from Suc.prems(2) below obtain err where err: "attempt_once (net a) = Inl err"
    by (metis isl_def order_refl less_imp_le)
  have "post_loop c net a lastError evs
      = post_loop c net (a + 1) (Some err) (evs @ Fetch a # backoff c a)"
    using below err by (simp add: post_loop_retry)
  also have "\<dots> = (Inl e, (evs @ Fetch a # backoff c a)
        @ concat (map (\<lambda>j. Fetch j # backoff c j) [a + 1..maxRetries c]))"
    using Suc.hyps(2) Suc.prems below by (intro Suc.hyps(1)) auto
  finally show ?case
    using below by (simp add: upto_rec1 [of a])
qed

lemma post_loop_first_success:
  "a \<le> k \<Longrightarrow> k \<le> maxRetries c \<Longrightarrow>
   (\<forall>j. a \<le> j \<and> j < k \<longrightarrow> isl (attempt_once (net j))) \<Longrightarrow>
   attempt_once (net k) = Inr response \<Longrightarrow>
   post_loop c net a lastError evs
     = (Inr response, evs @ concat (map (\<lambda>j. Fetch j # backoff c j) [a..k - 1]) @ [Fetch k])"
proof (induction "nat (k - a)" arbitrary: a lastError evs)
  case 0
  then have "a = k" by simp
  then show ?case using 0 by (simp add: post_loop_success)
next
  case (Suc d)
  then have below: "a < k" by simp
  from Suc.prems(3) below obtain err where err: "attempt_once (net a) = Inl err"
    by (metis isl_def order_refl)
  have "post_loop c net a lastError evs
      = post_loop c net (a + 1) (Some err) (evs @ Fetch a # backoff c a)"
    using below Suc.prems(2) err by (simp add: post_loop_retry)
  also have "\<dots> = (Inr response, (evs @ Fetch a # backoff c a)
        @ concat (map (\<lambda>j. Fetch j # backoff c j) [a + 1..k - 1]) @ [Fetch k])"
    using Suc.hyps(2) Suc.prems below by (intro Suc.hyps(1)) auto
  finally show ?case
    using below by (simp add: upto_rec1 [of a])
qed

lemma attempt_once_cases:
  "attempt_once (Threw msg) = Inl msg \<and>
   attempt_once (Responded st stText bd) =
     (if 200 \<le> st \<and> st < 300
      then Inr \<lparr>ok = True, status = st, statusText = stText, body = bd\<rparr>
      else Inl (''HTTP '' @ show_nat st @ '': '' @ stText))"
  by (simp add: attempt_once_def response_ok_def)

text \<open>
  Claim C4.  With \<open>maxRetries \<ge> 1\<close>: when every attempt from 1 to \<open>maxRetries\<close> fails,
  \<open>post\<close> fails with the error of the last attempt, having fetched once per attempt and
  slept \<open>initialDelayMs * 2 ^ (attempt - 1)\<close> after each attempt but the last.  When
  attempt \<open>k\<close> is the first to get a 2xx response, \<open>post\<close> returns that response right
  after the \<open>k\<close>-th fetch, with the same sleeps after the \<open>k - 1\<close> failures before it.
  An attempt fails with the message of the thrown error, or with
  "HTTP status: statusText" for a response outside 200..299.
\<close>

theorem post_retry_schedule:
  assumes "1 \<le> maxRetries c"
  shows
  "((\<forall>j. 1 \<le> j \<and> j \<le> maxRetries c \<longrightarrow> isl (attempt_once (net j))) \<and>
    attempt_once (net (maxRetries c)) = Inl e \<longrightarrow>
      post c net =
        (Inl e,
         concat (map (\<lambda>j. Fetch j #
                        (if j < maxRetries c then [Sleep (initialDelayMs c * 2 ^ nat (j - 1))]
                         else []))
                   [1..maxRetries c]))) \<and>
   (1 \<le> k \<and> k \<le> maxRetries c \<and>
    (\<forall>j. 1 \<le> j \<and> j < k \<longrightarrow> isl (attempt_once (net j))) \<and>
    attempt_once (net k) = Inr response \<longrightarrow>
      post c net =
        (Inr response,
         concat (map (\<lambda>j. [Fetch j, Sleep (initialDelayMs c * 2 ^ nat (j - 1))]) [1..k - 1])
           @ [Fetch k])) \<and>
   attempt_once (Threw msg) = Inl msg \<and>
   attempt_once (Responded st stText bd) =
     (if 200 \<le> st \<and> st < 300
      then Inr \<lparr>ok = True, status = st, statusText = stText, body = bd\<rparr>
      else Inl (''HTTP '' @ show_nat st @ '': '' @ stText))"
proof (intro conjI impI)
  assume fails: "(\<forall>j. 1 \<le> j \<and> j \<le> maxRetries c \<longrightarrow> isl (attempt_once (net j))) \<and>
    attempt_once (net (maxRetries c)) = Inl e"
  have "post c net = (Inl e, [] @ concat (map (\<lambda>j. Fetch j # backoff c j) [1..maxRetries c]))"
    unfolding post_def using assms fails by (intro post_loop_all_fail) auto
  then show "post c net =
        (Inl e,
         concat (map (\<lambda>j. Fetch j #
                        (if j < maxRetries c then [Sleep (initialDelayMs c * 2 ^ nat (j - 1))]
                         else []))
                   [1..maxRetries c]))"
    by (simp add: backoff_def)
next
  assume ok: "1 \<le> k \<and> k \<le> maxRetries c \<and>
    (\<forall>j. 1 \<le> j \<and> j < k \<longrightarrow> isl (attempt_once (net j))) \<and>
    attempt_once (net k) = Inr response"
  have "post c net
      = (Inr response, [] @ concat (map (\<lambda>j. Fetch j # backoff c j) [1..k - 1]) @ [Fetch k])"
    unfolding post_def using ok by (intro post_loop_first_success) auto
  moreover have "map (\<lambda>j. Fetch j # backoff c j) [1..k - 1]
      = map (\<lambda>j. [Fetch j, Sleep (initialDelayMs c * 2 ^ nat (j - 1))]) [1..k - 1]"
    using ok by (intro map_cong) (auto simp: backoff_def)
  ultimately show "post c net =
        (Inr response,
         concat (map (\<lambda>j. [Fetch j, Sleep (initialDelayMs c * 2 ^ nat (j - 1))]) [1..k - 1])
           @ [Fetch k])"
    by simp
qed (simp_all add: attempt_once_cases)

lemma show_nat_500: "show_nat 500 = ''500''"
  by code_simp

text \<open>
  The default client (3 attempts, 300 ms): success at the third attempt after two 503s,
  and exhaustion with the third attempt's HTTP 500 after two refused connections.
\<close>

theorem post_retry_schedule_witness:
  "post (HttpClient_new None None) flaky
     = (Inr \<lparr>ok = True, status = 200, statusText = ''OK'', body = ''{}''\<rparr>,
        [Fetch 1, Sleep 300, Fetch 2, Sleep 600, Fetch 3]) \<and>
   post (HttpClient_new None None) refusing
     = (Inl ''HTTP 500: Internal Server Error'',
        [Fetch 1, Sleep 300, Fetch 2, Sleep 600, Fetch 3])"
proof -
  let ?client = "HttpClient_new None None"
  have three: "maxRetries ?client = 3" and base: "initialDelayMs ?client = 300"
    by (simp_all add: HttpClient_new_def)
  have enough: "1 \<le> maxRetries ?client"
    by (simp add: three)
  have up3: "[1..3::int] = [1, 2, 3]" and up2: "[1..2::int] = [1, 2]"
    by (simp_all add: upto_rec1)
  have good: "1 \<le> (3::int) \<and> 3 \<le> maxRetries ?client \<and>
      (\<forall>j. 1 \<le> j \<and> j < 3 \<longrightarrow> isl (attempt_once (flaky j))) \<and>
      attempt_once (flaky 3) = Inr \<lparr>ok = True, status = 200, statusText = ''OK'', body = ''{}''\<rparr>"
    by (simp add: three flaky_def attempt_once_def response_ok_def)
  have bad: "(\<forall>j. 1 \<le> j \<and> j \<le> maxRetries ?client \<longrightarrow> isl (attempt_once (refusing j))) \<and>
      attempt_once (refusing (maxRetries ?client)) = Inl ''HTTP 500: Internal Server Error''"
    by (simp add: three refusing_def attempt_once_def response_ok_def show_nat_500)
  note sched = post_retry_schedule [OF enough]
  have "post ?client flaky
      = (Inr \<lparr>ok = True, status = 200, statusText = ''OK'', body = ''{}''\<rparr>,
         concat (map (\<lambda>j. [Fetch j, Sleep (initialDelayMs ?client * 2 ^ nat (j - 1))]) [1..3 - 1])
           @ [Fetch 3])"
    by (rule sched [THEN conjunct2, THEN conjunct1, rule_format, OF good])
  moreover have "post ?client refusing
      = (Inl ''HTTP 500: Internal Server Error'',
         concat (map (\<lambda>j. Fetch j #
                        (if j < maxRetries ?client
                         then [Sleep (initialDelayMs ?client * 2 ^ nat (j - 1))] else []))
                   [1..maxRetries ?client]))"
    by (rule sched [THEN conjunct1, rule_format, OF bad])
  ultimately show ?thesis
    by (simp add: three base up3 up2)
qed


section \<open>The batch scheduler\<close>

lemma new_fields:
  "queue (BatchManager_new sz iv fod) = []"
  "\<not> flushing (BatchManager_new sz iv fod)"
  "running (BatchManager_new sz iv fod) = 0"
  "onFlush_calls (BatchManager_new sz iv fod) = []"
  "immediates (BatchManager_new sz iv fod) = 0"
  "size_opt (options (BatchManager_new sz iv fod)) = sz"
  "timer (BatchManager_new sz iv fod)"
  by (simp_all add: BatchManager_new_def)

lemma add_effect:
  "add p w m =
     m\<lparr>queue := queue m @ [\<lparr>payload = p, webhookName = w\<rparr>],
       immediates := (if size_opt (options m) \<le> int (length (queue m)) + 1
                      then immediates m + 1 else immediates m)\<rparr>"
  by (simp add: add_def Let_def)

lemma flush_enter_guard:
  "flushing m \<or> queue m = [] \<Longrightarrow> flush_enter cb m = (Fulfilled, m)"
  by (simp add: flush_enter_def)

lemma flush_enter_promise:
  "\<not> flushing m \<Longrightarrow> queue m \<noteq> [] \<Longrightarrow>
   flush_enter ReturnsPromise m =
     (Pending, m\<lparr>flushing := True, queue := [], onFlush_calls := onFlush_calls m @ [queue m],
                 running := running m + 1\<rparr>)"
  by (simp add: flush_enter_def)

lemma flush_enter_throws:
  "\<not> flushing m \<Longrightarrow> queue m \<noteq> [] \<Longrightarrow>
   flush_enter (ThrowsSync e) m =
     (Failed e, m\<lparr>flushing := False, queue := [], onFlush_calls := onFlush_calls m @ [queue m]\<rparr>)"
  by (simp add: flush_enter_def)

lemma run_snoc: "run m (es @ [ev]) = step (run m es) ev"
  by (simp add: run_def)

lemma run_append: "run m (es @ es') = run (run m es) es'"
  by (simp add: run_def)

lemma added_append: "added (es @ es') = added es @ added es'"
  by (induction es rule: added.induct) simp_all

lemma adds_append: "adds (ps @ ps') = adds ps @ adds ps'"
  by (simp add: adds_def)

subsection \<open>Invariants of every run\<close>

lemma balanced_flush_enter: "balanced m \<Longrightarrow> balanced (snd (flush_enter cb m))"
  by (cases cb) (auto simp: balanced_def flush_enter_def Let_def)

lemma balanced_step: "balanced m \<Longrightarrow> balanced (step m ev)"
proof (cases ev)
  case (Add p w)
  assume "balanced m"
  then show ?thesis using Add by (simp add: balanced_def add_def Let_def)
next
  case (Flush cb)
  assume "balanced m"
  then show ?thesis using Flush by (simp add: balanced_flush_enter)
next
  case (Settle out)
  assume "balanced m"
  then show ?thesis using Settle by (auto simp: balanced_def flush_resume_def split: if_splits)
next
  case (Tick cb)
  assume "balanced m"
  then show ?thesis using Tick by (simp add: timer_tick_def balanced_flush_enter)
next
  case (Immediate cb)
  assume "balanced m"
  then have "balanced (m\<lparr>immediates := immediates m - 1\<rparr>)"
    by (simp add: balanced_def)
  then show ?thesis using Immediate \<open>balanced m\<close>
    by (simp add: run_immediate_def balanced_flush_enter)
next
  case (Destroy cb)
  assume "balanced m"
  then have "balanced (m\<lparr>timer := False\<rparr>)" "balanced (m\<lparr>timer := False, queue := []\<rparr>)"
    by (simp_all add: balanced_def)
  then show ?thesis using Destroy
    by (simp add: destroy_enter_def Let_def balanced_flush_enter)
qed

lemma balanced_run: "balanced m \<Longrightarrow> balanced (run m es)"
  by (induction es rule: rev_induct) (simp_all add: run_def balanced_step)

lemma claimed_flush_enter: "claimed (snd (flush_enter cb m)) = claimed m"
  by (cases cb) (auto simp: claimed_def flush_enter_def Let_def)

lemma claimed_step:
  "subseq (claimed m) xs \<Longrightarrow> subseq (claimed (step m ev)) (xs @ added [ev])"
proof (cases ev)
  case (Add p w)
  assume "subseq (claimed m) xs"
  then have "subseq (claimed m @ [\<lparr>payload = p, webhookName = w\<rparr>])
      (xs @ [\<lparr>payload = p, webhookName = w\<rparr>])"
    by (intro list_emb_append_mono) simp_all
  then show ?thesis using Add by (simp add: claimed_def add_def Let_def)
next
  case (Flush cb)
  assume "subseq (claimed m) xs"
  then show ?thesis using Flush by (simp add: claimed_flush_enter)
next
  case (Settle out)
  assume "subseq (claimed m) xs"
  then show ?thesis using Settle by (simp add: claimed_def flush_resume_def)
next
  case (Tick cb)
  assume "subseq (claimed m) xs"
  then show ?thesis using Tick by (simp add: timer_tick_def claimed_flush_enter)
next
  case (Immediate cb)
  assume "subseq (claimed m) xs"
  moreover have "claimed (m\<lparr>immediates := immediates m - 1\<rparr>) = claimed m"
    by (simp add: claimed_def)
  ultimately show ?thesis using Immediate
    by (simp add: run_immediate_def claimed_flush_enter)
next
  case (Destroy cb)
  assume sub: "subseq (claimed m) xs"
  have "claimed (m\<lparr>timer := False\<rparr>) = claimed m"
    by (simp add: claimed_def)
  moreover have "subseq (claimed (m\<lparr>timer := False, queue := []\<rparr>)) xs"
  proof -
    have "subseq (concat (onFlush_calls m)) (claimed m)"
      by (auto simp: claimed_def intro: list_emb_prefix)
    then have "subseq (concat (onFlush_calls m)) xs"
      using sub by (rule subseq_order.trans)
    then show ?thesis by (simp add: claimed_def)
  qed
  ultimately show ?thesis using Destroy sub
    by (simp add: destroy_enter_def Let_def claimed_flush_enter)
qed

lemma claimed_run:
  "subseq (claimed m) xs \<Longrightarrow> subseq (claimed (run m es)) (xs @ added es)"
proof (induction es rule: rev_induct)
  case Nil
  then show ?case by (simp add: run_def)
next
  case (snoc ev es)
  then have "subseq (claimed (step (run m es) ev)) ((xs @ added es) @ added [ev])"
    by (intro claimed_step) simp
  then show ?case by (simp add: run_snoc added_append)
qed

lemma timer_flush_enter: "timer (snd (flush_enter cb m)) = timer m"
  by (cases cb) (auto simp: flush_enter_def Let_def)

lemma timer_step: "\<not> timer m \<Longrightarrow> \<not> timer (step m ev)"
  by (cases ev)
    (simp_all add: add_effect timer_flush_enter flush_resume_def run_immediate_def
      destroy_enter_def Let_def)

lemma timer_run: "\<not> timer m \<Longrightarrow> \<not> timer (run m es)"
  by (induction es rule: rev_induct) (simp_all add: run_def timer_step)

lemma timer_destroy: "\<not> timer (snd (destroy_enter cb m))"
  by (simp add: destroy_enter_def Let_def timer_flush_enter)

lemma two_queued_eq:
  "two_queued = (BatchManager_new 10 5000 None)
     \<lparr>queue := [\<lparr>payload = 1, webhookName = None\<rparr>, \<lparr>payload = 2, webhookName = None\<rparr>]\<rparr>"
  by (simp add: two_queued_def run_def add_effect new_fields)

lemma two_queued_discard_eq:
  "two_queued_discard = (BatchManager_new 10 5000 (Some False))
     \<lparr>queue := [\<lparr>payload = 1, webhookName = None\<rparr>, \<lparr>payload = 2, webhookName = None\<rparr>]\<rparr>"
  by (simp add: two_queued_discard_def run_def add_effect new_fields)

lemma busy_eq:
  "busy = (BatchManager_new 10 5000 None)
     \<lparr>queue := [\<lparr>payload = 2, webhookName = None\<rparr>], flushing := True,
      onFlush_calls := [[\<lparr>payload = 1, webhookName = None\<rparr>]], running := 1\<rparr>"
  by (simp add: busy_def run_def add_effect flush_enter_def Let_def new_fields)

subsection \<open>flush\<close>

text \<open>
  Claim C2.  While a flush is in progress or the queue is empty, \<open>flush\<close> changes
  nothing and its promise is fulfilled at once.  Otherwise it empties the queue, calls
  \<open>onFlush\<close> once with the items that were queued and sets the flag; the flag is
  cleared when \<open>onFlush\<close> throws and when its promise settles either way, and the
  rest of \<open>flush\<close> calls nothing and takes nothing from the queue.  After any
  sequence of events on a new manager at most one \<open>onFlush\<close> is running, exactly when
  the flag is set, and the items handed to \<open>onFlush\<close> followed by the items still
  queued are a subsequence of the items added, in order, so no item is handed over
  twice.  Three \<open>flush\<close> calls on a queue of one item, before the first settles, call
  \<open>onFlush\<close> once.
\<close>

theorem flush_mutual_exclusion:
  "(flushing m \<or> queue m = [] \<longrightarrow> flush_enter cb (m::'p BatchManager) = (Fulfilled, m)) \<and>
   (\<not> flushing m \<and> queue m \<noteq> [] \<longrightarrow>
      flush_enter ReturnsPromise m =
        (Pending, m\<lparr>flushing := True, queue := [],
                    onFlush_calls := onFlush_calls m @ [queue m], running := running m + 1\<rparr>) \<and>
      flush_enter (ThrowsSync e) m =
        (Failed e, m\<lparr>flushing := False, queue := [],
                     onFlush_calls := onFlush_calls m @ [queue m]\<rparr>)) \<and>
   (\<not> flushing (snd (flush_resume out m)) \<and>
    onFlush_calls (snd (flush_resume out m)) = onFlush_calls m \<and>
    queue (snd (flush_resume out m)) = queue m) \<and>
   (running (run (BatchManager_new sz iv fod) (es::'p event list)) \<le> 1 \<and>
    flushing (run (BatchManager_new sz iv fod) es)
      = (running (run (BatchManager_new sz iv fod) es) = 1) \<and>
    subseq (concat (onFlush_calls (run (BatchManager_new sz iv fod) es))
              @ queue (run (BatchManager_new sz iv fod) es))
           (added es)) \<and>
   onFlush_calls (run (BatchManager_new sz iv fod)
                    [Add (p::'p) w, Flush ReturnsPromise, Flush ReturnsPromise,
                     Flush ReturnsPromise, Settle out])
     = [[\<lparr>payload = p, webhookName = w\<rparr>]]"
proof (intro conjI impI)
  let ?m0 = "BatchManager_new sz iv fod :: 'p BatchManager"
  have "balanced ?m0"
    by (simp add: balanced_def new_fields)
  then have bal: "balanced (run ?m0 es)"
    by (rule balanced_run)
  show "running (run ?m0 es) \<le> 1"
    using bal by (simp add: balanced_def)
  show "flushing (run ?m0 es) = (running (run ?m0 es) = 1)"
    using bal by (simp add: balanced_def)
  have "subseq (claimed ?m0) []"
    by (simp add: claimed_def new_fields)
  then have "subseq (claimed (run ?m0 es)) ([] @ added es)"
    by (rule claimed_run)
  then show "subseq (concat (onFlush_calls (run ?m0 es)) @ queue (run ?m0 es)) (added es)"
    by (simp add: claimed_def)
  show "onFlush_calls (run ?m0 [Add p w, Flush ReturnsPromise, Flush ReturnsPromise,
          Flush ReturnsPromise, Settle out]) = [[\<lparr>payload = p, webhookName = w\<rparr>]]"
    by (simp add: run_def add_effect flush_enter_def flush_resume_def new_fields Let_def)
qed (simp_all add: flush_enter_guard flush_enter_promise flush_enter_throws flush_resume_def)

theorem flush_mutual_exclusion_witness:
  "flush_enter ReturnsPromise (BatchManager_new 10 5000 None :: nat BatchManager)
     = (Fulfilled, BatchManager_new 10 5000 None) \<and>
   flush_enter ReturnsPromise busy = (Fulfilled, busy) \<and>
   fst (flush_enter ReturnsPromise two_queued) = Pending \<and>
   queue (snd (flush_enter ReturnsPromise two_queued)) = [] \<and>
   onFlush_calls (snd (flush_enter ReturnsPromise two_queued))
     = [[\<lparr>payload = 1, webhookName = None\<rparr>, \<lparr>payload = 2, webhookName = None\<rparr>]] \<and>
   flushing (snd (flush_enter ReturnsPromise two_queued)) \<and>
   \<not> flushing (snd (flush_enter (ThrowsSync ''boom'') two_queued))"
proof -
  have idle: "flushing (BatchManager_new 10 5000 None :: nat BatchManager)
      \<or> queue (BatchManager_new 10 5000 None :: nat BatchManager) = []"
    by (simp add: new_fields)
  have inflight: "flushing busy \<or> queue busy = []"
    by (simp add: busy_eq)
  have ready: "\<not> flushing two_queued \<and> queue two_queued \<noteq> []"
    by (simp add: two_queued_eq new_fields)
  note noop1 = flush_mutual_exclusion
      [of "BatchManager_new 10 5000 None :: nat BatchManager" ReturnsPromise "''boom''" Resolved
        10 5000 None "[]" 1 None, THEN conjunct1, rule_format, OF idle]
  note noop2 = flush_mutual_exclusion
      [of busy ReturnsPromise "''boom''" Resolved 10 5000 None "[]" 1 None,
        THEN conjunct1, rule_format, OF inflight]
  note drain = flush_mutual_exclusion
      [of two_queued ReturnsPromise "''boom''" Resolved 10 5000 None "[]" 1 None,
        THEN conjunct2, THEN conjunct1, rule_format, OF ready]
  show ?thesis
    by (simp add: noop1 noop2 drain) (simp add: two_queued_eq new_fields)
qed

subsection \<open>add\<close>

lemma run_adds_below:
  "int (length (queue m) + length ps) < size_opt (options m) \<Longrightarrow>
   run m (adds ps) = m\<lparr>queue := queue m @ map as_item ps\<rparr>"
proof (induction ps arbitrary: m)
  case Nil
  then show ?case by (simp add: run_def adds_def)
next
  case (Cons pw ps)
  let ?m1 = "add (fst pw) (snd pw) m"
  have one: "?m1 = m\<lparr>queue := queue m @ [as_item pw]\<rparr>"
    using Cons.prems by (simp add: add_effect as_item_def)
  have "run m (adds (pw # ps)) = run ?m1 (adds ps)"
    by (simp add: run_def adds_def)
  also have "\<dots> = ?m1\<lparr>queue := queue ?m1 @ map as_item ps\<rparr>"
    using Cons.prems by (intro Cons.IH) (simp add: one)
  finally show ?case by (simp add: one)
qed

lemma run_adds_exact:
  assumes "ps \<noteq> []"
  shows "run (BatchManager_new (int (length ps)) iv fod) (adds ps)
     = (BatchManager_new (int (length ps)) iv fod)\<lparr>queue := map as_item ps, immediates := 1\<rparr>"
proof -
  let ?m0 = "BatchManager_new (int (length ps)) iv fod :: 'a BatchManager"
  from assms obtain qs pw where split: "ps = qs @ [pw]"
    by (metis rev_exhaust)
  have "run ?m0 (adds qs) = ?m0\<lparr>queue := queue ?m0 @ map as_item qs\<rparr>"
    by (intro run_adds_below) (simp add: new_fields split)
  then have before: "run ?m0 (adds qs) = ?m0\<lparr>queue := map as_item qs\<rparr>"
    by (simp add: new_fields)
  have "run ?m0 (adds ps) = step (run ?m0 (adds qs)) (Add (fst pw) (snd pw))"
    by (simp add: split adds_append run_append) (simp add: adds_def run_def)
  also have "\<dots> = ?m0\<lparr>queue := map as_item qs @ [as_item pw], immediates := 1\<rparr>"
  proof -
    have "int (length ps) \<le> int (length qs) + 1"
      by (simp add: split)
    then show ?thesis
      by (simp add: before add_effect new_fields as_item_def)
  qed
  finally show ?thesis by (simp add: split)
qed

text \<open>
  Claim C3.  \<open>add\<close> appends the item at the tail, hands one callback to
  \<open>setImmediate\<close> exactly when the queue has reached \<open>size\<close> after the append, and
  calls \<open>onFlush\<close> never: the log of calls, the flag and the running count are as
  before.  For a new manager whose \<open>size\<close> is the number \<open>N \<ge> 1\<close> of items submitted:
  after fewer than \<open>N\<close> adds nothing is scheduled and nothing was flushed; after the
  \<open>N\<close>-th the queue holds the \<open>N\<close> items in order with one callback scheduled; and
  when that callback runs, \<open>onFlush\<close> has been called once, with exactly those items
  in submission order.
\<close>

theorem add_size_trigger:
  "queue (add (p::'p) w m) = queue m @ [\<lparr>payload = p, webhookName = w\<rparr>] \<and>
   immediates (add p w m) =
     (if size_opt (options m) \<le> int (length (queue m)) + 1 then immediates m + 1
      else immediates m) \<and>
   onFlush_calls (add p w m) = onFlush_calls m \<and>
   flushing (add p w m) = flushing m \<and>
   running (add p w m) = running m \<and>
   (ps \<noteq> [] \<longrightarrow>
      (\<forall>k < length ps.
         immediates (run (BatchManager_new (int (length ps)) iv fod)
                       (adds (take k (ps::('p \<times> string option) list)))) = 0 \<and>
         onFlush_calls (run (BatchManager_new (int (length ps)) iv fod) (adds (take k ps))) = []) \<and>
      run (BatchManager_new (int (length ps)) iv fod) (adds ps)
        = (BatchManager_new (int (length ps)) iv fod)\<lparr>queue := map as_item ps, immediates := 1\<rparr> \<and>
      run (BatchManager_new (int (length ps)) iv fod) (adds ps @ [Immediate ReturnsPromise])
        = (BatchManager_new (int (length ps)) iv fod)
            \<lparr>flushing := True, onFlush_calls := [map as_item ps], running := 1\<rparr>)"
proof (intro conjI impI allI)
  fix k
  assume "ps \<noteq> []" and k: "k < length ps"
  let ?m0 = "BatchManager_new (int (length ps)) iv fod :: 'p BatchManager"
  have "run ?m0 (adds (take k ps)) = ?m0\<lparr>queue := queue ?m0 @ map as_item (take k ps)\<rparr>"
    using k by (intro run_adds_below) (simp add: new_fields)
  then show "immediates (run ?m0 (adds (take k ps))) = 0"
    and "onFlush_calls (run ?m0 (adds (take k ps))) = []"
    by (simp_all add: new_fields)
next
  assume ne: "ps \<noteq> []"
  let ?m0 = "BatchManager_new (int (length ps)) iv fod :: 'p BatchManager"
  show full: "run ?m0 (adds ps) = ?m0\<lparr>queue := map as_item ps, immediates := 1\<rparr>"
    using ne by (rule run_adds_exact)
  show "run ?m0 (adds ps @ [Immediate ReturnsPromise])
      = ?m0\<lparr>flushing := True, onFlush_calls := [map as_item ps], running := 1\<rparr>"
    using ne
    by (simp add: run_snoc full run_immediate_def flush_enter_def new_fields Let_def)
qed (simp_all add: add_effect)

theorem add_size_trigger_witness:
  "immediates (run (BatchManager_new 3 5000 None)
       (adds [(1::nat, None), (2, None)])) = 0 \<and>
   run (BatchManager_new 3 5000 None) (adds [(1::nat, None), (2, None), (3, Some ''errors'')])
     = (BatchManager_new 3 5000 None)
         \<lparr>queue := [\<lparr>payload = 1, webhookName = None\<rparr>, \<lparr>payload = 2, webhookName = None\<rparr>,
                    \<lparr>payload = 3, webhookName = Some ''errors''\<rparr>],
          immediates := 1\<rparr> \<and>
   onFlush_calls (run (BatchManager_new 3 5000 None)
       (adds [(1::nat, None), (2, None), (3, Some ''errors'')] @ [Immediate ReturnsPromise]))
     = [[\<lparr>payload = 1, webhookName = None\<rparr>, \<lparr>payload = 2, webhookName = None\<rparr>,
         \<lparr>payload = 3, webhookName = Some ''errors''\<rparr>]]"
proof -
  let ?ps = "[(1::nat, None), (2, None), (3, Some ''errors'')]"
  have some: "?ps \<noteq> []" and two: "2 < length ?ps"
    by simp_all
  note batch = add_size_trigger [of 0 None "BatchManager_new 3 5000 None" ?ps 5000 None,
      THEN conjunct2, THEN conjunct2, THEN conjunct2, THEN conjunct2, THEN conjunct2,
      rule_format, OF some]
  note early = batch [THEN conjunct1, rule_format, OF two, THEN conjunct1]
  note full = batch [THEN conjunct2, THEN conjunct1]
  note fired = batch [THEN conjunct2, THEN conjunct2]
  have "immediates (run (BatchManager_new 3 5000 None) (adds [(1::nat, None), (2, None)])) = 0"
    using early by simp
  moreover have "run (BatchManager_new 3 5000 None) (adds ?ps)
     = (BatchManager_new 3 5000 None)
         \<lparr>queue := [\<lparr>payload = 1, webhookName = None\<rparr>, \<lparr>payload = 2, webhookName = None\<rparr>,
                    \<lparr>payload = 3, webhookName = Some ''errors''\<rparr>],
          immediates := 1\<rparr>"
    using full by (simp add: as_item_def)
  moreover have "onFlush_calls (run (BatchManager_new 3 5000 None)
       (adds ?ps @ [Immediate ReturnsPromise]))
     = [[\<lparr>payload = 1, webhookName = None\<rparr>, \<lparr>payload = 2, webhookName = None\<rparr>,
         \<lparr>payload = 3, webhookName = Some ''errors''\<rparr>]]"
    using fired by (simp add: as_item_def)
  ultimately show ?thesis by blast
qed

subsection \<open>destroy\<close>

text \<open>
  Claim C7, as the code has it.  \<open>destroy\<close> clears the timer first, the timer stays
  cleared whatever happens later, and so the interval callback never starts a flush
  again.  \<open>flushOnDestroy\<close> defaults to true.  With \<open>flushOnDestroy\<close>, a non-empty
  queue and no flush in progress, \<open>destroy\<close> calls \<open>onFlush\<close> once with exactly the
  queued items and its promise stays pending until that call has settled.  Without
  \<open>flushOnDestroy\<close> it calls nothing and empties the queue.  (What \<open>destroy\<close> does
  while another flush is in progress is left open here, and a later \<open>add\<close> that reaches
  the size threshold still schedules a flush.)
\<close>

theorem destroy_final_flush:
  "\<not> timer (snd (destroy_enter cb m)) \<and>
   \<not> timer (run (snd (destroy_enter cb m)) es) \<and>
   step (run (snd (destroy_enter cb m)) es) (Tick cb') = run (snd (destroy_enter cb m)) es \<and>
   flushOnDestroy (options (BatchManager_new sz iv None :: 'p BatchManager)) \<and>
   (flushOnDestroy (options m) \<and> queue m \<noteq> [] \<and> \<not> flushing m \<longrightarrow>
      destroy_enter ReturnsPromise (m::'p BatchManager) =
        (Pending, m\<lparr>timer := False, flushing := True, queue := [],
                    onFlush_calls := onFlush_calls m @ [queue m], running := running m + 1\<rparr>) \<and>
      fst (flush_resume Resolved (snd (destroy_enter ReturnsPromise m))) = Fulfilled \<and>
      onFlush_calls (snd (flush_resume Resolved (snd (destroy_enter ReturnsPromise m))))
        = onFlush_calls m @ [queue m]) \<and>
   (\<not> flushOnDestroy (options m) \<longrightarrow>
      destroy_enter cb m = (Fulfilled, m\<lparr>timer := False, queue := []\<rparr>))"
proof (intro conjI impI)
  show off: "\<not> timer (snd (destroy_enter cb m))"
    by (rule timer_destroy)
  then show later: "\<not> timer (run (snd (destroy_enter cb m)) es)"
    by (rule timer_run)
  then show "step (run (snd (destroy_enter cb m)) es) (Tick cb') = run (snd (destroy_enter cb m)) es"
    by simp
  show "flushOnDestroy (options (BatchManager_new sz iv None :: 'p BatchManager))"
    by (simp add: BatchManager_new_def)
next
  assume pending: "flushOnDestroy (options m) \<and> queue m \<noteq> [] \<and> \<not> flushing m"
  then show final: "destroy_enter ReturnsPromise m =
        (Pending, m\<lparr>timer := False, flushing := True, queue := [],
                    onFlush_calls := onFlush_calls m @ [queue m], running := running m + 1\<rparr>)"
    by (simp add: destroy_enter_def Let_def flush_enter_promise)
  show "fst (flush_resume Resolved (snd (destroy_enter ReturnsPromise m))) = Fulfilled"
    by (simp add: flush_resume_def)
  show "onFlush_calls (snd (flush_resume Resolved (snd (destroy_enter ReturnsPromise m))))
        = onFlush_calls m @ [queue m]"
    by (simp add: final flush_resume_def)
next
  assume "\<not> flushOnDestroy (options m)"
  then show "destroy_enter cb m = (Fulfilled, m\<lparr>timer := False, queue := []\<rparr>)"
    by (simp add: destroy_enter_def Let_def)
qed

text \<open>The test's scenarios: two queued items, with and without \<open>flushOnDestroy\<close>.\<close>

theorem destroy_final_flush_witness:
  "onFlush_calls (snd (destroy_enter ReturnsPromise two_queued))
     = [[\<lparr>payload = 1, webhookName = None\<rparr>, \<lparr>payload = 2, webhookName = None\<rparr>]] \<and>
   queue (snd (destroy_enter ReturnsPromise two_queued)) = [] \<and>
   fst (destroy_enter ReturnsPromise two_queued) = Pending \<and>
   onFlush_calls (snd (destroy_enter ReturnsPromise two_queued_discard)) = [] \<and>
   queue (snd (destroy_enter ReturnsPromise two_queued_discard)) = [] \<and>
   fst (destroy_enter ReturnsPromise two_queued_discard) = Fulfilled"
proof -
  have keep: "flushOnDestroy (options two_queued) \<and> queue two_queued \<noteq> [] \<and> \<not> flushing two_queued"
    by (simp add: two_queued_eq BatchManager_new_def)
  have drop: "\<not> flushOnDestroy (options two_queued_discard)"
    by (simp add: two_queued_discard_eq BatchManager_new_def)
  note flushed = destroy_final_flush [of ReturnsPromise two_queued "[]" ReturnsPromise 10 5000,
      THEN conjunct2, THEN conjunct2, THEN conjunct2, THEN conjunct2, THEN conjunct1,
      rule_format, OF keep, THEN conjunct1]
  note dropped = destroy_final_flush [of ReturnsPromise two_queued_discard "[]" ReturnsPromise 10 5000,
      THEN conjunct2, THEN conjunct2, THEN conjunct2, THEN conjunct2, THEN conjunct2,
      rule_format, OF drop]
  show ?thesis
    by (simp add: flushed dropped) (simp add: two_queued_eq two_queued_discard_eq new_fields)
qed

text \<open>
  C7 as worded fails in two ways.  With \<open>flushOnDestroy\<close> and an item queued while an
  earlier flush is still running, \<open>destroy\<close> calls \<open>onFlush\<close> not at all, completes at
  once and leaves the item in the queue.  And after \<open>destroy\<close>, an \<open>add\<close> that reaches
  the size threshold schedules a flush, which then calls \<open>onFlush\<close>.
\<close>

theorem destroy_strands_or_reschedules_counterexample:
  "flushOnDestroy (options busy) \<and>
   queue busy = [\<lparr>payload = 2, webhookName = None\<rparr>] \<and>
   destroy_enter ReturnsPromise busy = (Fulfilled, busy\<lparr>timer := False\<rparr>) \<and>
   onFlush_calls (snd (destroy_enter ReturnsPromise busy)) = onFlush_calls busy \<and>
   queue (snd (destroy_enter ReturnsPromise busy)) = [\<lparr>payload = 2, webhookName = None\<rparr>] \<and>
   immediates (add 3 None destroyed) = 1 \<and>
   onFlush_calls (run destroyed [Add 3 None, Immediate ReturnsPromise])
     = [[\<lparr>payload = 3, webhookName = None\<rparr>]]"
  by (simp add: busy_eq destroyed_def destroy_enter_def flush_enter_def run_immediate_def
      run_def add_effect Let_def new_fields)
    (simp add: BatchManager_new_def)


section \<open>The dispatcher\<close>

subsection \<open>The two pieces put together\<close>

lemma sendSingle_unfold:
  "sendSingle env p w s =
     (let card = buildCard (schema s) p (maxMessage s)
      in case getWebhook (toLowerCase env) (config s) (resolve_name (schema s) p w) of
           Inl e \<Rightarrow> (Inl e, s)
         | Inr url \<Rightarrow>
             (let k = length (posted s);
                  s1 = s\<lparr>posted := posted s @ [(url, card)]\<rparr>
              in case fst (post (httpClient s) (network env k)) of
                   Inl e \<Rightarrow> (Inl e, s1)
                 | Inr response \<Rightarrow> (Inr (), mark_key (settled_at env k) p s1)))"
  by (simp add: sendSingle_def sendSingle_begin_def sendSingle_finish_def Let_def
      split: sum.splits)

lemma notify_unfold:
  "notify env now p w s =
     (if not_important s p then (Inr (), s)
      else
        (case already_sent now p s of
           (True, s1) \<Rightarrow> (Inr (), s1)
         | (False, s1) \<Rightarrow>
             (case batchManager s1 of
                Some m \<Rightarrow> (Inr (), mark_key now p (s1\<lparr>batchManager := Some (add p w m)\<rparr>))
              | None \<Rightarrow> sendSingle env p w s1)))"
  by (simp add: notify_def notify_begin_def sendSingle_def
      split: prod.splits bool.splits option.splits sum.splits)

subsection \<open>Keys and the cache\<close>

lemma already_sent_hit:
  "key_of s p = Some k \<Longrightarrow> seen_until s k now \<Longrightarrow> already_sent now p s = (True, s)"
  by (auto simp: key_of_def seen_until_def already_sent_def has_def
      split: option.splits if_splits)


lemma mark_key_seen:
  "key_of s p = Some k \<Longrightarrow> cache s = Some c \<Longrightarrow>
   mark_key t p s = s\<lparr>cache := Some (set_key t k c)\<rparr>"
  by (auto simp: key_of_def mark_key_def split: option.splits if_splits)

lemma mark_key_frame:
  "schema (mark_key t p s) = schema s"
  "level (mark_key t p s) = level s"
  "config (mark_key t p s) = config s"
  "httpClient (mark_key t p s) = httpClient s"
  "batchManager (mark_key t p s) = batchManager s"
  "posted (mark_key t p s) = posted s"
  "console_errors (mark_key t p s) = console_errors s"
  "onError_calls (mark_key t p s) = onError_calls s"
  "onSuccess_calls (mark_key t p s) = onSuccess_calls s"
  "maxMessage (mark_key t p s) = maxMessage s"
  "ttl_of (mark_key t p s) = ttl_of s"
  by (auto simp: mark_key_def ttl_of_def set_key_def split: option.splits)

lemma mark_key_keeps:
  "seen_until s k t \<Longrightarrow> t \<le> t' + ttl_of s \<Longrightarrow> seen_until (mark_key t' p s) k t"
  by (auto simp: mark_key_def seen_until_def ttl_of_def set_key_def split: option.splits)

lemma seen_until_posted [simp]: "seen_until (s\<lparr>posted := xs\<rparr>) k t = seen_until s k t"
  by (simp add: seen_until_def)

lemma seen_until_console [simp]: "seen_until (s\<lparr>console_errors := xs\<rparr>) k t = seen_until s k t"
  by (simp add: seen_until_def)

lemma seen_until_manager [simp]: "seen_until (s\<lparr>batchManager := bm\<rparr>) k t = seen_until s k t"
  by (simp add: seen_until_def)

lemma ttl_of_updates [simp]:
  "ttl_of (s\<lparr>posted := xs\<rparr>) = ttl_of s"
  "ttl_of (s\<lparr>console_errors := es\<rparr>) = ttl_of s"
  "ttl_of (s\<lparr>batchManager := bm\<rparr>) = ttl_of s"
  by (simp_all add: ttl_of_def)

lemma already_sent_frame:
  "schema (snd (already_sent now p s)) = schema s"
  "level (snd (already_sent now p s)) = level s"
  "config (snd (already_sent now p s)) = config s"
  "httpClient (snd (already_sent now p s)) = httpClient s"
  "batchManager (snd (already_sent now p s)) = batchManager s"
  "maxMessage (snd (already_sent now p s)) = maxMessage s"
  "posted (snd (already_sent now p s)) = posted s"
  "console_errors (snd (already_sent now p s)) = console_errors s"
  "ttl_of (snd (already_sent now p s)) = ttl_of s"
  by (auto simp: already_sent_def has_def ttl_of_def split: option.splits)

lemma already_sent_cache:
  "cache s = Some c \<Longrightarrow> \<exists>c1. cache (snd (already_sent now p s)) = Some c1 \<and> ttlMs c1 = ttlMs c"
  by (auto simp: already_sent_def has_def split: option.splits)

lemma already_sent_true: "fst (already_sent now p s) \<Longrightarrow> snd (already_sent now p s) = s"
  by (auto simp: already_sent_def has_def split: option.splits if_splits)


subsection \<open>sendSingle and sendBatch\<close>


lemma sendSingle_frame:
  "schema (snd (sendSingle env p w s)) = schema s"
  "level (snd (sendSingle env p w s)) = level s"
  "config (snd (sendSingle env p w s)) = config s"
  "httpClient (snd (sendSingle env p w s)) = httpClient s"
  "batchManager (snd (sendSingle env p w s)) = batchManager s"
  "maxMessage (snd (sendSingle env p w s)) = maxMessage s"
  "console_errors (snd (sendSingle env p w s)) = console_errors s"
  "onError_calls (snd (sendSingle env p w s)) = onError_calls s"
  "onSuccess_calls (snd (sendSingle env p w s)) = onSuccess_calls s"
  "ttl_of (snd (sendSingle env p w s)) = ttl_of s"
  by (simp_all add: sendSingle_unfold Let_def mark_key_frame split: sum.splits)

lemma sendSingle_keeps:
  "seen_until s k t \<Longrightarrow> (\<forall>i. t \<le> settled_at env i + ttl_of s) \<Longrightarrow>
   seen_until (snd (sendSingle env p w s)) k t"
  by (simp add: sendSingle_unfold Let_def mark_key_keeps split: sum.splits)

lemma sendSingle_posted:
  "length (posted (snd (sendSingle env p w s))) \<le> length (posted s) + 1"
  by (simp add: sendSingle_unfold Let_def mark_key_frame split: sum.splits)


lemma sendSingle_failed:
  "getWebhook (toLowerCase env) (config s) (resolve_name (schema s) p w) = Inr url \<Longrightarrow>
   fst (post (httpClient s) (network env (length (posted s)))) = Inl e \<Longrightarrow>
   sendSingle env p w s
     = (Inl e, s\<lparr>posted := posted s @ [(url, buildCard (schema s) p (maxMessage s))]\<rparr>)"
  by (simp add: sendSingle_unfold Let_def)




lemma send_item_frame:
  "schema (snd (send_item env it s)) = schema s"
  "level (snd (send_item env it s)) = level s"
  "config (snd (send_item env it s)) = config s"
  "httpClient (snd (send_item env it s)) = httpClient s"
  "batchManager (snd (send_item env it s)) = batchManager s"
  "maxMessage (snd (send_item env it s)) = maxMessage s"
  "onError_calls (snd (send_item env it s)) = onError_calls s"
  "onSuccess_calls (snd (send_item env it s)) = onSuccess_calls s"
  "ttl_of (snd (send_item env it s)) = ttl_of s"
  using sendSingle_frame [of env "payload it" "webhookName it" s]
  by (auto simp: send_item_def split: prod.splits sum.splits)

lemma send_item_ok: "fst (send_item env it s) = Inr ()"
  by (simp add: send_item_def split: prod.splits sum.splits)

lemma send_item_keeps:
  "seen_until s k t \<Longrightarrow> (\<forall>i. t \<le> settled_at env i + ttl_of s) \<Longrightarrow>
   seen_until (snd (send_item env it s)) k t"
  using sendSingle_keeps [of s k t env "payload it" "webhookName it"]
  by (auto simp: send_item_def split: prod.splits sum.splits)

lemma sendBatch_ok: "fst (sendBatch env batch s) = Inr ()"
proof (induction batch arbitrary: s)
  case Nil
  then show ?case by simp
next
  case (Cons it batch)
  obtain r s1 where one: "send_item env it s = (r, s1)"
    by (cases "send_item env it s")
  then have "r = Inr ()"
    using send_item_ok [of env it s] by simp
  then show ?case
    using one Cons.IH [of s1] by (simp split: prod.splits)
qed

lemma sendBatch_frame:
  "schema (snd (sendBatch env batch s)) = schema s \<and>
   level (snd (sendBatch env batch s)) = level s \<and>
   batchManager (snd (sendBatch env batch s)) = batchManager s \<and>
   onError_calls (snd (sendBatch env batch s)) = onError_calls s \<and>
   onSuccess_calls (snd (sendBatch env batch s)) = onSuccess_calls s \<and>
   ttl_of (snd (sendBatch env batch s)) = ttl_of s"
proof (induction batch arbitrary: s)
  case Nil
  then show ?case by simp
next
  case (Cons it batch)
  obtain r s1 where one: "send_item env it s = (r, s1)"
    by (cases "send_item env it s")
  then have "s1 = snd (send_item env it s)" by simp
  then show ?case
    using Cons.IH [of s1] by (simp add: send_item_frame case_prod_beta)
qed

lemma sendBatch_keeps:
  "seen_until s k t \<Longrightarrow> (\<forall>i. t \<le> settled_at env i + ttl_of s) \<Longrightarrow>
   seen_until (snd (sendBatch env batch s)) k t"
proof (induction batch arbitrary: s)
  case Nil
  then show ?case by simp
next
  case (Cons it batch)
  obtain r s1 where one: "send_item env it s = (r, s1)"
    by (cases "send_item env it s")
  then have s1: "s1 = snd (send_item env it s)" by simp
  have "seen_until s1 k t"
    unfolding s1 using Cons.prems by (rule send_item_keeps)
  moreover have "\<forall>i. t \<le> settled_at env i + ttl_of s1"
    using Cons.prems(2) by (simp add: s1 send_item_frame)
  ultimately have "seen_until (snd (sendBatch env batch s1)) k t"
    by (rule Cons.IH)
  then show ?case
    by (simp add: s1 case_prod_beta)
qed

lemma sendBatch_isolated:
  "fst (sendBatch env batch s) = Inr () \<and>
   onError_calls (snd (sendBatch env batch s)) = onError_calls s \<and>
   onSuccess_calls (snd (sendBatch env batch s)) = onSuccess_calls s"
  using sendBatch_frame [of env batch s] by (simp add: sendBatch_ok)

lemma await_onFlush_keeps:
  "seen_until s k t \<Longrightarrow> (\<forall>i. t \<le> settled_at env i + ttl_of s) \<Longrightarrow>
   seen_until (snd (await_onFlush env pm s)) k t \<and>
   schema (snd (await_onFlush env pm s)) = schema s"
proof -
  assume seen: "seen_until s k t" and late: "\<forall>i. t \<le> settled_at env i + ttl_of s"
  obtain pr m1 where pm: "pm = (pr, m1)" by (cases pm)
  let ?s0 = "s\<lparr>batchManager := Some m1\<rparr>"
  have "seen_until (snd (sendBatch env (last (onFlush_calls m1)) ?s0)) k t"
    using seen late by (intro sendBatch_keeps) simp_all
  moreover have "schema (snd (sendBatch env (last (onFlush_calls m1)) ?s0)) = schema s"
    using sendBatch_frame [of env "last (onFlush_calls m1)" ?s0] by simp
  ultimately show ?thesis
    using seen by (cases pr) (simp_all add: await_onFlush_def pm case_prod_beta)
qed

lemma notifier_flush_keeps:
  "seen_until s k t \<Longrightarrow> (\<forall>i. t \<le> settled_at env i + ttl_of s) \<Longrightarrow>
   seen_until (snd (notifier_flush env s)) k t \<and>
   schema (snd (notifier_flush env s)) = schema s"
  by (simp add: notifier_flush_def await_onFlush_keeps split: option.splits)





subsection \<open>notify\<close>

lemma notify_not_dispatched:
  "not_important s p \<or> fst (already_sent now p s) \<Longrightarrow> notify env now p w s = (Inr (), s)"
proof (cases "not_important s p")
  case True
  then show ?thesis by (simp add: notify_unfold)
next
  case False
  assume "not_important s p \<or> fst (already_sent now p s)"
  then have hit: "fst (already_sent now p s)"
    using False by simp
  then have "already_sent now p s = (True, s)"
    using already_sent_true [of now p s] by (cases "already_sent now p s") simp
  then show ?thesis
    using False by (simp add: notify_unfold)
qed

lemma notify_batch:
  "\<not> not_important s p \<Longrightarrow> \<not> fst (already_sent now p s) \<Longrightarrow> batchManager s = Some m \<Longrightarrow>
   notify env now p w s =
     (Inr (), mark_key now p ((snd (already_sent now p s))\<lparr>batchManager := Some (add p w m)\<rparr>))"
  by (cases "already_sent now p s")
    (use already_sent_frame(5) [of now p s] in \<open>auto simp: notify_unfold\<close>)

lemma notify_immediate:
  "\<not> not_important s p \<Longrightarrow> \<not> fst (already_sent now p s) \<Longrightarrow> batchManager s = None \<Longrightarrow>
   notify env now p w s = sendSingle env p w (snd (already_sent now p s))"
  by (cases "already_sent now p s")
    (use already_sent_frame(5) [of now p s] in \<open>auto simp: notify_unfold\<close>)

lemma notify_bound:
  "length (posted (snd (notify env now p w s))) \<le> length (posted s) + 1 \<and>
   enqueued (snd (notify env now p w s)) \<le> enqueued s + 1"
proof (cases "not_important s p \<or> fst (already_sent now p s)")
  case True
  then show ?thesis by (simp add: notify_not_dispatched)
next
  case False
  show ?thesis
  proof (cases "batchManager s")
    case None
    then have "notify env now p w s = sendSingle env p w (snd (already_sent now p s))"
      using False by (simp add: notify_immediate)
    then show ?thesis
      using sendSingle_posted [of env p w "snd (already_sent now p s)"] None
      by (simp add: enqueued_def sendSingle_frame already_sent_frame)
  next
    case (Some m)
    then have "notify env now p w s =
        (Inr (), mark_key now p ((snd (already_sent now p s))\<lparr>batchManager := Some (add p w m)\<rparr>))"
      using False by (simp add: notify_batch)
    then show ?thesis
      using Some by (simp add: enqueued_def mark_key_frame already_sent_frame add_def Let_def)
  qed
qed

lemma notify_batch_seen:
  assumes "batchManager s = Some m" and "cache s = Some c" and "key_of s p = Some k"
    and "\<not> not_important s p" and "\<not> fst (already_sent now p s)"
  shows "seen_until (snd (notify env now p w s)) k (now + ttlMs c) \<and>
    schema (snd (notify env now p w s)) = schema s \<and>
    ttl_of (snd (notify env now p w s)) = ttlMs c \<and>
    batchManager (snd (notify env now p w s)) = Some (add p w m) \<and>
    posted (snd (notify env now p w s)) = posted s"
proof -
  let ?s1 = "snd (already_sent now p s)"
  let ?s2 = "?s1\<lparr>batchManager := Some (add p w m)\<rparr>"
  note frame = already_sent_frame [of now p s]
  have eq: "notify env now p w s = (Inr (), mark_key now p ?s2)"
    using assms by (simp add: notify_batch)
  from already_sent_cache [OF assms(2), of now p] obtain c1
    where c1: "cache ?s1 = Some c1" and ttl: "ttlMs c1 = ttlMs c"
    by blast
  have "key_of ?s2 p = Some k" "cache ?s2 = Some c1"
    using assms(3) c1 by (simp_all add: key_of_def frame)
  then have "mark_key now p ?s2 = ?s2\<lparr>cache := Some (set_key now k c1)\<rparr>"
    by (rule mark_key_seen)
  then show ?thesis
    by (simp add: eq seen_until_def set_key_def ttl ttl_of_def frame)
qed

subsection \<open>The example notifier\<close>

lemma post_refused: "post (HttpClient_new (Some 2) None) (\<lambda>a. Threw msg)
    = (Inl msg, [Fetch 1, Sleep 300, Fetch 2])"
  by (simp add: post_def post_loop.simps HttpClient_new_def attempt_once_def backoff_def)

lemma post_accepted: "fst (post (HttpClient_new (Some 2) None) (\<lambda>a. Responded 200 ''OK'' ''{}''))
    = Inr \<lparr>ok = True, status = 200, statusText = ''OK'', body = ''{}''\<rparr>"
  by (simp add: post_def post_loop.simps HttpClient_new_def attempt_once_def response_ok_def)

lemma demo_fields:
  "cache (demo bm) = Some (IdempotencyCache_new (Some 1000))"
  "batchManager (demo bm) = bm"
  "posted (demo bm) = []"
  "key_of (demo bm) event_a = Some ''a''"
  "key_of (demo bm) event_b = Some ''b''"
  "\<not> not_important (demo bm) q"
  "\<not> fst (already_sent t q (demo bm))"
  "snd (already_sent t q (demo bm)) = demo bm"
  by (auto simp: demo_def demo_schema_def key_of_def event_a_def event_b_def not_important_def
      already_sent_def has_def IdempotencyCache_new_def split: option.splits)

lemma demo_url:
  "getWebhook lower (config (demo bm)) (resolve_name (schema (demo bm)) q w)
     = Inr ''https://chat.googleapis.com/a''"
  by (cases w) (simp_all add: demo_def demo_schema_def resolve_name_def getWebhook_def
      default_or_def Let_def)


lemma demo_failed_send:
  "sendSingle unreachable q w (demo bm)
     = (Inl ''ECONNREFUSED'', (demo bm)\<lparr>posted := [(''https://chat.googleapis.com/a'', q)]\<rparr>)"
proof -
  have url: "getWebhook (toLowerCase unreachable) (config (demo bm))
      (resolve_name (schema (demo bm)) q w) = Inr ''https://chat.googleapis.com/a''"
    by (rule demo_url)
  have "fst (post (httpClient (demo bm)) (network unreachable (length (posted (demo bm)))))
      = Inl ''ECONNREFUSED''"
    by (simp add: demo_def unreachable_def post_refused)
  from sendSingle_failed [OF url this] show ?thesis
    by (simp add: demo_def demo_schema_def)
qed


lemma batching_fields:
  "batchManager batching = Some (BatchManager_new 10 5000 None)"
  "cache batching = Some (IdempotencyCache_new (Some 1000))"
  "key_of batching event_a = Some ''a''"
  "\<not> not_important batching event_a"
  "\<not> fst (already_sent 0 event_a batching)"
  by (simp_all add: batching_def demo_fields)

text \<open>The example notifier after a first call has started, and after one delivery.\<close>

lemmas demo_eval = notify_unfold notify_begin_def sendSingle_begin_def
  sendSingle_finish_def already_sent_def has_def mark_key_def set_key_def not_important_def
  getWebhook_def default_or_def resolve_name_def demo_def demo_schema_def event_a_def event_b_def
  event_blank_def IdempotencyCache_new_def reachable_def reachable_at_def unreachable_def Let_def
  post_accepted post_refused

lemma in_flight_eq:
  "notify_begin reachable 0 event_a None (demo None)
     = (Awaiting 0, (demo None)\<lparr>posted := [(''https://chat.googleapis.com/a'', event_a)]\<rparr>)"
  by (simp add: demo_eval)

lemma in_flight_twice_eq:
  "notify_begin reachable 3 event_a None
       ((demo None)\<lparr>posted := [(''https://chat.googleapis.com/a'', event_a)]\<rparr>)
     = (Awaiting 1, (demo None)\<lparr>posted := [(''https://chat.googleapis.com/a'', event_a),
          (''https://chat.googleapis.com/a'', event_a)]\<rparr>)"
  by (simp add: demo_eval)

lemma delivered_once_eq:
  "notify reachable 0 event_a None (demo None)
     = (Inr (), (demo None)\<lparr>posted := [(''https://chat.googleapis.com/a'', event_a)],
          cache := Some \<lparr>cache_map = fmupd ''a'' \<lparr>expiresAt = 1005\<rparr> fmempty,
            ttlMs = 1000, cleanupTimer = True\<rparr>\<rparr>)"
  by (simp add: demo_eval sendSingle_unfold)

lemma delivered_once_fields:
  "delivered_once = (demo None)\<lparr>posted := [(''https://chat.googleapis.com/a'', event_a)],
      cache := Some \<lparr>cache_map = fmupd ''a'' \<lparr>expiresAt = 1005\<rparr> fmempty,
        ttlMs = 1000, cleanupTimer = True\<rparr>\<rparr>"
  by (simp add: delivered_once_def delivered_once_eq)

subsection \<open>Immediate delivery\<close>













subsection \<open>Duplicate suppression\<close>

lemma already_sent_keeps:
  "seen_until s k T \<Longrightarrow> t \<le> T \<Longrightarrow> seen_until (snd (already_sent t p s)) k T"
  by (auto simp: seen_until_def already_sent_def has_def split: option.splits if_splits)

lemma sendSingle_begin_frame:
  "schema (snd (sendSingle_begin env p w s)) = schema s"
  "cache (snd (sendSingle_begin env p w s)) = cache s"
  "batchManager (snd (sendSingle_begin env p w s)) = batchManager s"
  "length (posted (snd (sendSingle_begin env p w s))) \<le> length (posted s) + 1"
  by (simp_all add: sendSingle_begin_def Let_def split: sum.splits)

lemma notify_begin_cases:
  "notify_begin env t p w s = (Returned (Inr ()), s) \<or>
   notify_begin env t p w s = (Returned (Inr ()), snd (already_sent t p s)) \<or>
   (\<exists>m. notify_begin env t p w s =
      (Returned (Inr ()), mark_key t p ((snd (already_sent t p s))\<lparr>batchManager := Some m\<rparr>))) \<or>
   (batchManager s = None \<and>
    snd (notify_begin env t p w s) = snd (sendSingle_begin env p w (snd (already_sent t p s))))"
proof (cases "not_important s p")
  case True
  then show ?thesis by (simp add: notify_begin_def)
next
  case False
  obtain hit s1 where a: "already_sent t p s = (hit, s1)"
    by (cases "already_sent t p s")
  have bm: "batchManager s1 = batchManager s"
    using already_sent_frame(5) [of t p s] a by simp
  show ?thesis
  proof (cases hit)
    case True
    then show ?thesis using False a by (simp add: notify_begin_def)
  next
    case nohit: False
    show ?thesis
    proof (cases "batchManager s1")
      case (Some m)
      then have "notify_begin env t p w s =
          (Returned (Inr ()), mark_key t p (s1\<lparr>batchManager := Some (add p w m)\<rparr>))"
        using False a nohit by (simp add: notify_begin_def)
      then show ?thesis using a by auto
    next
      case None
      then show ?thesis
        using False a nohit bm
        by (cases "sendSingle_begin env p w s1"; cases "fst (sendSingle_begin env p w s1)")
          (simp_all add: notify_begin_def)
    qed
  qed
qed

lemma notify_begin_frame:
  "schema (snd (notify_begin env t p w s)) = schema s \<and>
   ttl_of (snd (notify_begin env t p w s)) = ttl_of s"
proof -
  let ?s1 = "snd (already_sent t p s)"
  have s1: "schema ?s1 = schema s" "ttl_of ?s1 = ttl_of s"
    by (simp_all add: already_sent_frame)
  have "ttl_of (snd (sendSingle_begin env p w ?s1)) = ttl_of ?s1"
    using sendSingle_begin_frame(2) [of env p w ?s1] by (simp add: ttl_of_def)
  then show ?thesis
    using notify_begin_cases [of env t p w s] s1 sendSingle_begin_frame(1) [of env p w ?s1]
    by (auto simp: mark_key_frame)
qed

lemma notify_begin_keeps:
  assumes "seen_until s k T" and "t \<le> T" and "T \<le> t + ttl_of s"
  shows "seen_until (snd (notify_begin env t p w s)) k T"
proof -
  let ?s1 = "snd (already_sent t p s)"
  have s1: "seen_until ?s1 k T"
    using assms(1,2) by (rule already_sent_keeps)
  have ttl: "ttl_of ?s1 = ttl_of s"
    by (simp add: already_sent_frame)
  have batch: "\<And>m. seen_until (mark_key t p (?s1\<lparr>batchManager := Some m\<rparr>)) k T"
    using s1 assms(3) ttl by (intro mark_key_keeps) simp_all
  have direct: "seen_until (snd (sendSingle_begin env p w ?s1)) k T"
    using s1 sendSingle_begin_frame(2) [of env p w ?s1] by (simp add: seen_until_def)
  show ?thesis
    using notify_begin_cases [of env t p w s] assms(1) s1 batch direct
    by auto
qed

lemma sendSingle_finish_keeps:
  "seen_until s k T \<Longrightarrow> T \<le> t + ttl_of s \<Longrightarrow>
   seen_until (snd (sendSingle_finish outcome t p s)) k T \<and>
   schema (snd (sendSingle_finish outcome t p s)) = schema s \<and>
   ttl_of (snd (sendSingle_finish outcome t p s)) = ttl_of s"
  by (cases outcome) (simp_all add: sendSingle_finish_def mark_key_keeps mark_key_frame)

lemma sweep_keeps:
  "seen_until s k T \<Longrightarrow> t \<le> T \<Longrightarrow>
   seen_until (act s (Sweeps t)) k T \<and> schema (act s (Sweeps t)) = schema s \<and>
   ttl_of (act s (Sweeps t)) = ttl_of s"
  by (auto simp: seen_until_def ttl_of_def cleanup_def split: option.splits)

lemma notifier_flush_ttl: "ttl_of (snd (notifier_flush env s)) = ttl_of s"
proof (cases "batchManager s")
  case None
  then show ?thesis by (simp add: notifier_flush_def)
next
  case (Some m)
  obtain pr m1 where pm: "flush_enter ReturnsPromise m = (pr, m1)"
    by (cases "flush_enter ReturnsPromise m")
  show ?thesis
    using sendBatch_frame [of env "last (onFlush_calls m1)" "s\<lparr>batchManager := Some m1\<rparr>"]
    by (cases pr) (simp_all add: notifier_flush_def Some pm await_onFlush_def case_prod_beta)
qed

lemma act_keeps:
  assumes "seen_until s k T" and "timed_within lo hi ev" and "hi \<le> T" and "T \<le> lo + ttl_of s"
  shows "seen_until (act s ev) k T \<and> schema (act s ev) = schema s \<and> ttl_of (act s ev) = ttl_of s"
proof (cases ev)
  case (Begins env p w t)
  then have "t \<le> T" "T \<le> t + ttl_of s"
    using assms by simp_all
  then show ?thesis
    using Begins assms(1) notify_begin_frame [of env t p w s] by (simp add: notify_begin_keeps)
next
  case (Settles outcome t p)
  then have "T \<le> t + ttl_of s"
    using assms by simp
  then show ?thesis
    using Settles assms(1) sendSingle_finish_keeps [of s k T t outcome p] by simp
next
  case (Flushes env)
  then have "\<forall>i. T \<le> settled_at env i + ttl_of s"
  proof -
    have "\<forall>i. lo \<le> settled_at env i"
      using assms(2) Flushes by simp
    then show ?thesis
      using assms(4) by (metis add_right_mono order_trans)
  qed
  then show ?thesis
    using Flushes notifier_flush_keeps [OF assms(1), of env] notifier_flush_ttl [of env s] by simp
next
  case (Sweeps t)
  then have "t \<le> T"
    using assms by simp
  then show ?thesis
    using Sweeps sweep_keeps [OF assms(1), of t] by simp
qed

lemma acts_keeps:
  assumes "seen_until s k T" and "\<forall>ev \<in> set evs. timed_within lo hi ev"
    and "hi \<le> T" and "T \<le> lo + ttl_of s"
  shows "seen_until (acts s evs) k T \<and> schema (acts s evs) = schema s \<and>
    ttl_of (acts s evs) = ttl_of s"
  using assms(2)
proof (induction evs rule: rev_induct)
  case Nil
  then show ?case using assms(1) by (simp add: acts_def)
next
  case (snoc ev evs)
  then have before: "seen_until (acts s evs) k T" "schema (acts s evs) = schema s"
    "ttl_of (acts s evs) = ttl_of s"
    by simp_all
  have "timed_within lo hi ev"
    using snoc.prems by simp
  from act_keeps [OF before(1) this assms(3)] before assms(4)
  show ?case by (simp add: acts_def)
qed

lemma key_of_schema: "schema s' = schema s \<Longrightarrow> key_of s' p = key_of s p"
  by (simp add: key_of_def)

lemma seen_until_earlier: "seen_until s k T \<Longrightarrow> t \<le> T \<Longrightarrow> seen_until s k t"
  by (auto simp: seen_until_def split: option.splits)

lemma notify_begin_suppressed:
  "key_of s p = Some k \<Longrightarrow> seen_until s k now \<Longrightarrow>
   notify_begin env now p w s = (Returned (Inr ()), s)"
  by (simp add: notify_begin_def already_sent_hit)

lemma notify_begin_not_dispatched:
  "not_important s p \<or> fst (already_sent now p s) \<Longrightarrow>
   notify_begin env now p w s = (Returned (Inr ()), s)"
  using already_sent_true [of now p s]
  by (cases "already_sent now p s") (auto simp: notify_begin_def)

lemma notify_begin_batch:
  "\<not> not_important s p \<Longrightarrow> \<not> fst (already_sent now p s) \<Longrightarrow> batchManager s = Some m \<Longrightarrow>
   notify_begin env now p w s =
     (Returned (Inr ()),
      mark_key now p ((snd (already_sent now p s))\<lparr>batchManager := Some (add p w m)\<rparr>))"
  using already_sent_frame(5) [of now p s]
  by (cases "already_sent now p s") (simp add: notify_begin_def)

lemma notify_begin_direct:
  "\<not> not_important s p \<Longrightarrow> \<not> fst (already_sent now p s) \<Longrightarrow> batchManager s = None \<Longrightarrow>
   notify_begin env now p w s =
     (case sendSingle_begin env p w (snd (already_sent now p s)) of
        (Inl e, s2) \<Rightarrow> (Returned (Inl e), s2)
      | (Inr j, s2) \<Rightarrow> (Awaiting j, s2))"
  using already_sent_frame(5) [of now p s]
  by (cases "already_sent now p s") (simp add: notify_begin_def)

lemma notify_of_begin:
  "notify_begin env now p w s = (Returned r, s1) \<Longrightarrow> notify env now p w s = (r, s1)"
  "notify_begin env now p w s = (Awaiting j, s1) \<Longrightarrow>
   notify env now p w s =
     sendSingle_finish (fst (post (httpClient s1) (network env j))) (settled_at env j) p s1"
  by (simp_all add: notify_def)

lemma sendSingle_finish_frame:
  "posted (snd (sendSingle_finish outcome t p s)) = posted s"
  "batchManager (snd (sendSingle_finish outcome t p s)) = batchManager s"
  "schema (snd (sendSingle_finish outcome t p s)) = schema s"
  by (cases outcome; simp add: sendSingle_finish_def mark_key_frame)+

lemma notify_begin_bound:
  "length (posted (snd (notify_begin env now p w s))) \<le> length (posted s) + 1 \<and>
   enqueued (snd (notify_begin env now p w s)) \<le> enqueued s + 1"
proof -
  have "posted (snd (notify env now p w s)) = posted (snd (notify_begin env now p w s)) \<and>
      batchManager (snd (notify env now p w s)) = batchManager (snd (notify_begin env now p w s))"
    by (cases "notify_begin env now p w s"; cases "fst (notify_begin env now p w s)")
      (simp_all add: notify_def sendSingle_finish_frame)
  then show ?thesis
    using notify_bound [of env now p w s] by (simp add: enqueued_def)
qed

lemma sendSingle_begin_awaiting:
  "fst (sendSingle_begin env p w s) = Inr j \<Longrightarrow>
   j = length (posted s) \<and>
   length (posted (snd (sendSingle_begin env p w s))) = length (posted s) + 1"
  by (auto simp: sendSingle_begin_def Let_def split: sum.splits)

lemma already_sent_ttl:
  "map_option ttlMs (cache (snd (already_sent now p s))) = map_option ttlMs (cache s)"
  by (auto simp: already_sent_def has_def split: option.splits)

lemma mark_key_ttl: "map_option ttlMs (cache (mark_key t p s)) = map_option ttlMs (cache s)"
  by (auto simp: mark_key_def set_key_def split: option.splits)

lemma act_direct:
  assumes "batchManager s = None"
  shows "batchManager (act s ev) = None \<and> schema (act s ev) = schema s \<and>
    map_option ttlMs (cache (act s ev)) = map_option ttlMs (cache s)"
proof (cases ev)
  case (Begins env p w t)
  let ?s1 = "snd (already_sent t p s)"
  have s1: "batchManager ?s1 = None" "schema ?s1 = schema s"
    using assms by (simp_all add: already_sent_frame)
  have "snd (notify_begin env t p w s) = s \<or> snd (notify_begin env t p w s) = ?s1 \<or>
      snd (notify_begin env t p w s) = snd (sendSingle_begin env p w ?s1)"
    using notify_begin_not_dispatched [of s p t env w]
      notify_begin_direct [of s p t env w, OF _ _ assms]
    by (cases "not_important s p \<or> fst (already_sent t p s)")
      (auto simp: case_prod_beta split: sum.splits)
  then show ?thesis
    using Begins assms s1 sendSingle_begin_frame [of env p w ?s1] already_sent_ttl [of t p s]
    by auto
next
  case (Settles outcome t p)
  then show ?thesis
    using assms
    by (cases outcome) (simp_all add: sendSingle_finish_def mark_key_frame mark_key_ttl)
next
  case (Flushes env)
  then show ?thesis using assms by (simp add: notifier_flush_def)
next
  case (Sweeps t)
  then show ?thesis using assms by (auto simp: cleanup_def split: option.splits)
qed

lemma acts_direct:
  assumes "batchManager s = None"
  shows "batchManager (acts s evs) = None \<and> schema (acts s evs) = schema s \<and>
    map_option ttlMs (cache (acts s evs)) = map_option ttlMs (cache s)"
proof (induction evs rule: rev_induct)
  case Nil
  then show ?case using assms by (simp add: acts_def)
next
  case (snoc ev evs)
  then show ?case
    using act_direct [of "acts s evs" ev] by (simp add: acts_def)
qed

text \<open>
  Claim C1, as the code has it.  Two \<open>notify\<close> calls whose payloads have the same
  non-empty key, on a notifier with a cache and a key extractor; the first passes the
  importance filter and the idempotency check, and the second is made within the TTL
  of the first.  In between, any number of actions may run: other \<open>notify\<close> calls,
  posts that settle, flushes and sweeps of the cache; not \<open>destroy\<close>.

  With a batch manager the first call enqueues the payload and marks the key before it
  returns, without posting, and the second call returns with the notifier unchanged:
  nothing is posted and nothing is enqueued, also when the batch has not been flushed.
  Without a batch manager the first call posts once and waits; if that post has
  succeeded before the second call is made, the second call returns with the notifier
  unchanged.  Every call posts at most once and enqueues at most once, the rest of a
  \<open>sendSingle\<close> posts nothing, and a call that is filtered out or suppressed leaves the
  notifier unchanged.
\<close>

theorem notify_duplicate_dropped:
  assumes "cache s = Some c" and "key_of s p1 = Some k" and "key_of s p2 = Some k"
    and "\<not> not_important s p1" and "\<not> fst (already_sent now1 p1 s)"
    and "now2 \<le> now1 + ttlMs c"
    and "\<forall>ev \<in> set evs1. timed_within now1 now2 ev"
    and "\<forall>ev \<in> set evs2. timed_within now1 now2 ev"
  shows
    "(batchManager s \<noteq> None \<longrightarrow>
        fst (notify_begin env1 now1 p1 w1 s) = Returned (Inr ()) \<and>
        posted (snd (notify_begin env1 now1 p1 w1 s)) = posted s \<and>
        enqueued (snd (notify_begin env1 now1 p1 w1 s)) = enqueued s + 1 \<and>
        notify_begin env2 now2 p2 w2 (acts (snd (notify_begin env1 now1 p1 w1 s)) evs1)
          = (Returned (Inr ()), acts (snd (notify_begin env1 now1 p1 w1 s)) evs1)) \<and>
     (\<forall>j response t1.
        batchManager s = None \<and> fst (notify_begin env1 now1 p1 w1 s) = Awaiting j \<and>
        now1 \<le> t1 \<and> t1 \<le> now2 \<longrightarrow>
          j = length (posted s) \<and>
          length (posted (snd (notify_begin env1 now1 p1 w1 s))) = length (posted s) + 1 \<and>
          notify_begin env2 now2 p2 w2
              (acts (snd (sendSingle_finish (Inr response) t1 p1
                 (acts (snd (notify_begin env1 now1 p1 w1 s)) evs1))) evs2)
            = (Returned (Inr ()),
               acts (snd (sendSingle_finish (Inr response) t1 p1
                 (acts (snd (notify_begin env1 now1 p1 w1 s)) evs1))) evs2)) \<and>
     (\<forall>env now p w (s' :: 'a NotifierImpl) outcome.
        length (posted (snd (notify_begin env now p w s'))) \<le> length (posted s') + 1 \<and>
        enqueued (snd (notify_begin env now p w s')) \<le> enqueued s' + 1 \<and>
        posted (snd (sendSingle_finish outcome now p s')) = posted s' \<and>
        enqueued (snd (sendSingle_finish outcome now p s')) = enqueued s' \<and>
        (not_important s' p \<or> fst (already_sent now p s') \<longrightarrow>
           notify_begin env now p w s' = (Returned (Inr ()), s')))"
proof (intro conjI impI allI)
  assume "batchManager s \<noteq> None"
  then obtain m where m: "batchManager s = Some m"
    by auto
  let ?sA = "snd (notify_begin env1 now1 p1 w1 s)"
  have first_call: "notify_begin env1 now1 p1 w1 s =
      (Returned (Inr ()),
       mark_key now1 p1 ((snd (already_sent now1 p1 s))\<lparr>batchManager := Some (add p1 w1 m)\<rparr>))"
    using assms(4,5) m by (rule notify_begin_batch)
  then have same: "?sA = snd (notify env1 now1 p1 w1 s)"
    by (simp add: notify_of_begin(1))
  note seen = notify_batch_seen [OF m assms(1,2,4,5), of env1 w1, folded same]
  show "fst (notify_begin env1 now1 p1 w1 s) = Returned (Inr ())"
    using first_call by simp
  show "posted ?sA = posted s"
    using seen by simp
  show "enqueued ?sA = enqueued s + 1"
    using seen m by (simp add: enqueued_def add_def Let_def)
  have "seen_until (acts ?sA evs1) k (now1 + ttlMs c) \<and> schema (acts ?sA evs1) = schema ?sA \<and>
      ttl_of (acts ?sA evs1) = ttl_of ?sA"
    using seen assms(6,7) by (intro acts_keeps [where lo = now1 and hi = now2]) simp_all
  then have "key_of (acts ?sA evs1) p2 = Some k" "seen_until (acts ?sA evs1) k now2"
    using seen assms(3,6) key_of_schema [of "acts ?sA evs1" s p2]
      seen_until_earlier [of "acts ?sA evs1" k "now1 + ttlMs c" now2]
    by simp_all
  then show "notify_begin env2 now2 p2 w2 (acts ?sA evs1) = (Returned (Inr ()), acts ?sA evs1)"
    by (rule notify_begin_suppressed)
next
  fix j response t1
  assume direct: "batchManager s = None \<and> fst (notify_begin env1 now1 p1 w1 s) = Awaiting j \<and>
    now1 \<le> t1 \<and> t1 \<le> now2"
  let ?s1 = "snd (already_sent now1 p1 s)"
  let ?sA = "snd (notify_begin env1 now1 p1 w1 s)"
  let ?sB = "acts ?sA evs1"
  let ?sC = "snd (sendSingle_finish (Inr response) t1 p1 ?sB)"
  have first_call: "notify_begin env1 now1 p1 w1 s =
      (case sendSingle_begin env1 p1 w1 ?s1 of
         (Inl e, s2) \<Rightarrow> (Returned (Inl e), s2) | (Inr j, s2) \<Rightarrow> (Awaiting j, s2))"
    using assms(4,5) direct by (intro notify_begin_direct) simp_all
  from first_call have sA: "?sA = snd (sendSingle_begin env1 p1 w1 ?s1)"
    and awaiting: "fst (sendSingle_begin env1 p1 w1 ?s1) = Inr j"
    using direct by (auto simp: case_prod_beta split: sum.splits)
  from sendSingle_begin_awaiting [OF awaiting]
  show "j = length (posted s)"
    and "length (posted ?sA) = length (posted s) + 1"
    by (simp_all add: sA already_sent_frame)
  have frameA: "batchManager ?sA = None" "schema ?sA = schema s"
    "map_option ttlMs (cache ?sA) = Some (ttlMs c)"
    using direct assms(1) sendSingle_begin_frame [of env1 p1 w1 ?s1] already_sent_ttl [of now1 p1 s]
    by (simp_all add: sA already_sent_frame)
  from acts_direct [OF frameA(1), of evs1] frameA
  have frameB: "schema ?sB = schema s" "map_option ttlMs (cache ?sB) = Some (ttlMs c)"
    by simp_all
  then obtain cB where cB: "cache ?sB = Some cB" "ttlMs cB = ttlMs c"
    by auto
  have keyB: "key_of ?sB p1 = Some k"
    using frameB(1) assms(2) key_of_schema [of ?sB s p1] by simp
  have sC: "?sC = ?sB\<lparr>cache := Some (set_key t1 k cB)\<rparr>"
    using mark_key_seen [OF keyB cB(1)] by (simp add: sendSingle_finish_def)
  have "seen_until ?sC k (t1 + ttlMs c)"
    by (simp add: sC seen_until_def set_key_def cB)
  then have seenC: "seen_until ?sC k (now1 + ttlMs c)"
    using direct seen_until_earlier [of ?sC k "t1 + ttlMs c" "now1 + ttlMs c"] by simp
  have frameC: "schema ?sC = schema s" "ttl_of ?sC = ttlMs c"
    using frameB(1) cB by (simp_all add: sC ttl_of_def set_key_def)
  have "seen_until (acts ?sC evs2) k (now1 + ttlMs c) \<and> schema (acts ?sC evs2) = schema ?sC \<and>
      ttl_of (acts ?sC evs2) = ttl_of ?sC"
    using seenC assms(6,8) frameC
    by (intro acts_keeps [where lo = now1 and hi = now2]) simp_all
  then have "key_of (acts ?sC evs2) p2 = Some k" "seen_until (acts ?sC evs2) k now2"
    using frameC assms(3,6) key_of_schema [of "acts ?sC evs2" s p2]
      seen_until_earlier [of "acts ?sC evs2" k "now1 + ttlMs c" now2]
    by simp_all
  then show "notify_begin env2 now2 p2 w2 (acts ?sC evs2) = (Returned (Inr ()), acts ?sC evs2)"
    by (rule notify_begin_suppressed)
next
  fix env now p w and s' :: "'a NotifierImpl" and outcome :: "string + HttpResponse"
  show "length (posted (snd (notify_begin env now p w s'))) \<le> length (posted s') + 1"
    and "enqueued (snd (notify_begin env now p w s')) \<le> enqueued s' + 1"
    using notify_begin_bound [of env now p w s'] by simp_all
  show "posted (snd (sendSingle_finish outcome now p s')) = posted s'"
    and "enqueued (snd (sendSingle_finish outcome now p s')) = enqueued s'"
    by (simp_all add: sendSingle_finish_frame enqueued_def)
  assume "not_important s' p \<or> fst (already_sent now p s')"
  then show "notify_begin env now p w s' = (Returned (Inr ()), s')"
    by (rule notify_begin_not_dispatched)
qed

text \<open>
  The example notifier.  With batching: an event enqueued at time 0, then a \<open>notify\<close> of
  another event, a sweep and a flush, and the event notified again at time 10.  Without
  batching: an event posted at time 0, a second \<open>notify\<close> of it at time 3 while the post
  is awaited, the post accepted at time 5, a sweep and a \<open>notify\<close> of another event, and
  the event notified again at time 10.
\<close>

theorem notify_duplicate_dropped_witness:
  "(fst (notify_begin reachable 0 event_a None batching) = Returned (Inr ()) \<and>
    posted (snd (notify_begin reachable 0 event_a None batching)) = posted batching \<and>
    enqueued (snd (notify_begin reachable 0 event_a None batching)) = enqueued batching + 1 \<and>
    notify_begin (reachable_at 15) 10 event_a None
        (acts (snd (notify_begin reachable 0 event_a None batching))
           [Begins reachable event_b None 2, Sweeps 3, Flushes reachable])
      = (Returned (Inr ()),
         acts (snd (notify_begin reachable 0 event_a None batching))
           [Begins reachable event_b None 2, Sweeps 3, Flushes reachable])) \<and>
   (fst (notify_begin reachable 0 event_a None (demo None)) = Awaiting 0 \<and>
    length (posted (snd (notify_begin reachable 0 event_a None (demo None)))) = 1 \<and>
    notify_begin (reachable_at 15) 10 event_a None
        (acts (snd (sendSingle_finish
             (Inr \<lparr>ok = True, status = 200, statusText = ''OK'', body = ''{}''\<rparr>) 5 event_a
             (acts (snd (notify_begin reachable 0 event_a None (demo None)))
                [Begins reachable event_a None 3])))
           [Sweeps 7, Begins reachable event_b None 8])
      = (Returned (Inr ()),
         acts (snd (sendSingle_finish
             (Inr \<lparr>ok = True, status = 200, statusText = ''OK'', body = ''{}''\<rparr>) 5 event_a
             (acts (snd (notify_begin reachable 0 event_a None (demo None)))
                [Begins reachable event_a None 3])))
           [Sweeps 7, Begins reachable event_b None 8]))"
proof -
  have window: "(10::int) \<le> 0 + ttlMs (IdempotencyCache_new (Some 1000))"
    by (simp add: IdempotencyCache_new_def)
  have between: "\<forall>ev \<in> set [Begins reachable event_b None 2, Sweeps 3, Flushes reachable].
      timed_within 0 10 ev"
    "\<forall>ev \<in> set [Begins reachable event_a None 3]. timed_within 0 10 ev"
    "\<forall>ev \<in> set [Sweeps 7, Begins reachable event_b None 8]. timed_within 0 10 ev"
    "\<forall>ev \<in> set ([] :: action list). timed_within 0 10 ev"
    by (simp_all add: reachable_def)
  note batched = notify_duplicate_dropped
    [OF batching_fields(2,3,3,4,5) window between(1,4),
      where ?env1.0 = reachable and ?w1.0 = None and ?env2.0 = "reachable_at 15" and ?w2.0 = None,
      THEN conjunct1, rule_format]
  note direct = notify_duplicate_dropped
    [OF demo_fields(1,4,4,6,7) window between(2,3),
      where ?env1.0 = reachable and ?w1.0 = None and ?env2.0 = "reachable_at 15" and ?w2.0 = None,
      THEN conjunct2, THEN conjunct1, rule_format,
      of None 0 5 "\<lparr>ok = True, status = 200, statusText = ''OK'', body = ''{}''\<rparr>"]
  have first_begin: "fst (notify_begin reachable 0 event_a None (demo None)) = Awaiting 0"
    by (simp add: in_flight_eq)
  have "batchManager batching \<noteq> None"
    by (simp add: batching_fields)
  from batched [OF this] direct [OF conjI [OF demo_fields(2) conjI [OF first_begin]]]
  show ?thesis
    using first_begin by (simp add: demo_fields)
qed

text \<open>
  What the conditions are for, on the example notifier without batching, TTL 1000.
  When the first delivery fails, the key is not marked and a second call 10 ms later
  posts again.  When the second call is made at time 3 while the post of the first is
  awaited, it posts too, although the first post is then accepted.  A payload whose
  key is the empty string is never suppressed.  When the first call is itself
  suppressed, by an entry that expires at 1005, a second call at 1006 posts.  And
  after \<open>destroy\<close> the cache is empty, so a call 10 ms after a delivered one posts again.
\<close>

theorem notify_duplicate_delivered_counterexample:
  "key_of (demo None) event_a = Some ''a'' \<and>
   cache (demo None) = Some (IdempotencyCache_new (Some 1000)) \<and>
   ttlMs (IdempotencyCache_new (Some 1000)) = 1000 \<and>
   (fst (notify unreachable 0 event_a None (demo None)) = Inl ''ECONNREFUSED'' \<and>
    posted (snd (notify (reachable_at 15) 10 event_a None
        (snd (notify unreachable 0 event_a None (demo None)))))
      = [(''https://chat.googleapis.com/a'', event_a), (''https://chat.googleapis.com/a'', event_a)]) \<and>
   (fst (notify_begin reachable 0 event_a None (demo None)) = Awaiting 0 \<and>
    fst (notify_begin reachable 3 event_a None in_flight) = Awaiting 1 \<and>
    posted in_flight_twice
      = [(''https://chat.googleapis.com/a'', event_a), (''https://chat.googleapis.com/a'', event_a)] \<and>
    fst (sendSingle_finish (fst (post (httpClient in_flight_twice) (network reachable 0)))
          (settled_at reachable 0) event_a in_flight_twice) = Inr ()) \<and>
   (map_option (\<lambda>keyOf. keyOf event_blank) (getIdempotencyKey (schema (demo None)))
      = Some (Some []) \<and>
    fst (notify reachable 0 event_blank None (demo None)) = Inr () \<and>
    posted (snd (notify (reachable_at 15) 10 event_blank None
        (snd (notify reachable 0 event_blank None (demo None)))))
      = [(''https://chat.googleapis.com/a'', event_blank),
         (''https://chat.googleapis.com/a'', event_blank)]) \<and>
   (posted delivered_once = [(''https://chat.googleapis.com/a'', event_a)] \<and>
    notify (reachable_at 1010) 1005 event_a None delivered_once = (Inr (), delivered_once) \<and>
    posted (snd (notify (reachable_at 1010) 1006 event_a None delivered_once))
      = [(''https://chat.googleapis.com/a'', event_a), (''https://chat.googleapis.com/a'', event_a)]) \<and>
   (fst (notifier_destroy reachable delivered_once) = Inr () \<and>
    posted (snd (notify (reachable_at 15) 10 event_a None
        (snd (notifier_destroy reachable delivered_once))))
      = [(''https://chat.googleapis.com/a'', event_a), (''https://chat.googleapis.com/a'', event_a)])"
proof -
  have failed_first: "fst (notify unreachable 0 event_a None (demo None)) = Inl ''ECONNREFUSED''"
    "posted (snd (notify (reachable_at 15) 10 event_a None
        (snd (notify unreachable 0 event_a None (demo None)))))
      = [(''https://chat.googleapis.com/a'', event_a), (''https://chat.googleapis.com/a'', event_a)]"
    by (simp_all add: demo_eval sendSingle_unfold)
  have overlapping: "fst (notify_begin reachable 0 event_a None (demo None)) = Awaiting 0"
    "fst (notify_begin reachable 3 event_a None in_flight) = Awaiting 1"
    "posted in_flight_twice
      = [(''https://chat.googleapis.com/a'', event_a), (''https://chat.googleapis.com/a'', event_a)]"
    "fst (sendSingle_finish (fst (post (httpClient in_flight_twice) (network reachable 0)))
          (settled_at reachable 0) event_a in_flight_twice) = Inr ()"
    by (simp_all add: in_flight_twice_def in_flight_def in_flight_eq in_flight_twice_eq)
      (simp_all add: demo_eval)
  have blank: "map_option (\<lambda>keyOf. keyOf event_blank) (getIdempotencyKey (schema (demo None)))
      = Some (Some [])"
    "fst (notify reachable 0 event_blank None (demo None)) = Inr ()"
    "posted (snd (notify (reachable_at 15) 10 event_blank None
        (snd (notify reachable 0 event_blank None (demo None)))))
      = [(''https://chat.googleapis.com/a'', event_blank),
         (''https://chat.googleapis.com/a'', event_blank)]"
    by (simp_all add: demo_eval sendSingle_unfold)
  have expired: "posted delivered_once = [(''https://chat.googleapis.com/a'', event_a)]"
    "notify (reachable_at 1010) 1005 event_a None delivered_once = (Inr (), delivered_once)"
    "posted (snd (notify (reachable_at 1010) 1006 event_a None delivered_once))
      = [(''https://chat.googleapis.com/a'', event_a), (''https://chat.googleapis.com/a'', event_a)]"
    by (simp_all add: delivered_once_fields) (simp_all add: demo_eval sendSingle_unfold)
  have destroyed_between: "fst (notifier_destroy reachable delivered_once) = Inr ()"
    "posted (snd (notify (reachable_at 15) 10 event_a None
        (snd (notifier_destroy reachable delivered_once))))
      = [(''https://chat.googleapis.com/a'', event_a), (''https://chat.googleapis.com/a'', event_a)]"
    by (simp_all add: delivered_once_fields)
      (simp_all add: demo_eval sendSingle_unfold notifier_destroy_def cache_destroy_def)
  show ?thesis
    using failed_first overlapping blank expired destroyed_between
    by (simp add: demo_fields IdempotencyCache_new_def)
qed

subsection \<open>Batched delivery\<close>



text \<open>
  Claim C6, at a batch of two items where the first delivery fails: the second item
  is still posted and \<open>sendBatch\<close> completes normally, but the error is written with
  \<open>console.error\<close> and the \<open>onError\<close> callback is not called.
\<close>

theorem sendBatch_failure_only_logged:
  "fst (sendBatch first_post_fails
          [\<lparr>payload = event_a, webhookName = None\<rparr>, \<lparr>payload = event_b, webhookName = None\<rparr>]
          batching) = Inr () \<and>
   posted (snd (sendBatch first_post_fails
          [\<lparr>payload = event_a, webhookName = None\<rparr>, \<lparr>payload = event_b, webhookName = None\<rparr>]
          batching))
     = [(''https://chat.googleapis.com/a'', event_a), (''https://chat.googleapis.com/a'', event_b)] \<and>
   console_errors (snd (sendBatch first_post_fails
          [\<lparr>payload = event_a, webhookName = None\<rparr>, \<lparr>payload = event_b, webhookName = None\<rparr>]
          batching)) = [''ECONNREFUSED''] \<and>
   onError_calls (snd (sendBatch first_post_fails
          [\<lparr>payload = event_a, webhookName = None\<rparr>, \<lparr>payload = event_b, webhookName = None\<rparr>]
          batching)) = []"
  by (simp add: batching_def demo_def demo_schema_def first_post_fails_def send_item_def
      sendSingle_unfold resolve_name_def getWebhook_def default_or_def Let_def post_refused
      post_accepted mark_key_def event_a_def event_b_def)

end
